theory Spec2Isabelle
  imports Complex_Main "HOL-Library.Char_ord" "HOL-Library.List_Lexorder" "HOL-Library.Monad_Syntax"
begin

section \<open>Python values used by \<open>temporal_cache.py\<close>\<close>

text \<open>
  A Python \<open>set\<close> of strings is a duplicate-free list; the order of the list stands for
  the (unspecified) iteration order of the set, and every theorem below holds for every
  such order. A Python \<open>dict\<close> is an association list in insertion order, which is the
  order \<open>dict.keys()\<close> iterates in.
\<close>

type_synonym 'a pyset = "'a list"

definition set_add :: "'a \<Rightarrow> 'a pyset \<Rightarrow> 'a pyset" where
  \<comment> \<open>\<open>s.add(x)\<close>\<close>
  "set_add x s = (if x \<in> set s then s else s @ [x])"

datatype error = ZeroDivisionError | OverflowError | TypeError | RuntimeError | ValueError | IndexError

section \<open>DependencyGraph\<close>

text \<open>
  \<open>graph\<close> maps a node to its dependencies, \<open>reverse_graph\<close> a node to its dependents.
  Both are \<open>defaultdict(set)\<close>: indexing a missing key creates the empty set there,
  \<open>.get(key, set())\<close> does not.
\<close>

type_synonym adjacency = "(string \<times> string pyset) list"

record DependencyGraph =
  graph :: adjacency
  reverse_graph :: adjacency

definition DependencyGraph_init :: DependencyGraph where
  "DependencyGraph_init = \<lparr>graph = [], reverse_graph = []\<rparr>"

fun adj_add :: "adjacency \<Rightarrow> string \<Rightarrow> string \<Rightarrow> adjacency" where
  \<comment> \<open>\<open>d[k].add(x)\<close> on a \<open>defaultdict(set)\<close>\<close>
  "adj_add [] k x = [(k, [x])]"
| "adj_add ((k', s) # d) k x = (if k' = k then (k', set_add x s) # d else (k', s) # adj_add d k x)"

definition adj_get :: "adjacency \<Rightarrow> string \<Rightarrow> string pyset" where
  \<comment> \<open>\<open>d.get(k, set())\<close>\<close>
  "adj_get d k = (case map_of d k of None \<Rightarrow> [] | Some s \<Rightarrow> s)"

definition add_dependency :: "DependencyGraph \<Rightarrow> string \<Rightarrow> string \<Rightarrow> DependencyGraph" where
  "add_dependency g node_id depends_on =
     g\<lparr>graph := adj_add (graph g) node_id depends_on,
       reverse_graph := adj_add (reverse_graph g) depends_on node_id\<rparr>"

definition get_dependencies :: "DependencyGraph \<Rightarrow> string \<Rightarrow> string pyset" where
  "get_dependencies g node_id = adj_get (graph g) node_id"

definition get_dependents :: "DependencyGraph \<Rightarrow> string \<Rightarrow> string pyset" where
  "get_dependents g node_id = adj_get (reverse_graph g) node_id"

text \<open>
  The body of \<open>for dependent in dependents\<close>: a dependent not yet in \<open>affected\<close> is added
  to \<open>affected\<close> and appended to \<open>queue\<close>.
\<close>

fun visit_dependents :: "string list \<Rightarrow> string pyset \<Rightarrow> string list \<Rightarrow> string pyset \<times> string list" where
  "visit_dependents [] affected queue = (affected, queue)"
| "visit_dependents (dep # ds) affected queue =
     (if dep \<notin> set affected
      then visit_dependents ds (affected @ [dep]) (queue @ [dep])
      else visit_dependents ds affected queue)"

definition graph_nodes :: "DependencyGraph \<Rightarrow> string set" where
  \<comment> \<open>every node that is a dependent of some node\<close>
  "graph_nodes g = (\<Union>p \<in> set (reverse_graph g). set (snd p))"

lemma adj_get_subset: "set (adj_get d k) \<subseteq> (\<Union>p \<in> set d. set (snd p))"
proof
  fix x assume "x \<in> set (adj_get d k)"
  then obtain s where "map_of d k = Some s" "x \<in> set s"
    by (cases "map_of d k") (auto simp: adj_get_def)
  then have "(k, s) \<in> set d" "x \<in> set (snd (k, s))"
    by (auto dest: map_of_SomeD)
  then show "x \<in> (\<Union>p \<in> set d. set (snd p))" by blast
qed

lemma visit_dependents_affected:
  "visit_dependents ds a q = (a', q') \<Longrightarrow> set a' = set a \<union> set ds"
  by (induction ds a q rule: visit_dependents.induct) (auto split: if_splits)

lemma visit_dependents_queue_same:
  "visit_dependents ds a q = (a', q') \<Longrightarrow> set ds \<subseteq> set a \<Longrightarrow> a' = a \<and> q' = q"
  by (induction ds a q rule: visit_dependents.induct) (auto split: if_splits)

text \<open>
  The \<open>while queue\<close> loop of \<open>get_affected_nodes\<close>: \<open>queue.pop(0)\<close> takes the head.
  \<open>visited\<close> is a ghost list, not in the source: it records the nodes in the order the
  loop pops them, so that "each node is visited at most once" can be stated.
\<close>

function bfs :: "DependencyGraph \<Rightarrow> string pyset \<Rightarrow> string list \<Rightarrow> string list \<Rightarrow> string pyset \<times> string list" where
  "bfs g affected visited [] = (affected, visited)"
| "bfs g affected visited (node # queue) =
     (case visit_dependents (get_dependents g node) affected queue of
        (affected', queue') \<Rightarrow> bfs g affected' (visited @ [node]) queue')"
  by pat_completeness auto
termination
proof (relation "inv_image (less_than <*lex*> less_than)
                   (\<lambda>(g, affected, visited, queue). (card (graph_nodes g - set affected), length queue))",
       goal_cases)
  case 1
  then show ?case by (intro wf_inv_image wf_lex_prod wf_less_than)
next
  case (2 g affected visited node queue affected' queue')
  let ?ds = "get_dependents g node"
  have vis: "visit_dependents ?ds affected queue = (affected', queue')"
    using 2 by simp
  have sub: "set ?ds \<subseteq> graph_nodes g"
    unfolding get_dependents_def graph_nodes_def by (rule adj_get_subset)
  have fin: "finite (graph_nodes g)"
    unfolding graph_nodes_def by simp
  have aff: "set affected' = set affected \<union> set ?ds"
    using vis by (rule visit_dependents_affected)
  show ?case
  proof (cases "set ?ds \<subseteq> set affected")
    case True
    then have "affected' = affected \<and> queue' = queue"
      using vis visit_dependents_queue_same by blast
    then show ?thesis by simp
  next
    case False
    then obtain d where d: "d \<in> set ?ds" "d \<notin> set affected" by blast
    have "graph_nodes g - set affected' \<subset> graph_nodes g - set affected"
      using d sub aff by auto
    then have "card (graph_nodes g - set affected') < card (graph_nodes g - set affected)"
      using fin by (simp add: psubset_card_mono)
    then show ?thesis by simp
  qed
qed

definition bfs_run :: "DependencyGraph \<Rightarrow> string pyset \<Rightarrow> string pyset \<times> string list" where
  \<comment> \<open>\<open>affected = set(changed_nodes); queue = list(changed_nodes)\<close>, then the loop\<close>
  "bfs_run g changed_nodes = bfs g (remdups changed_nodes) [] changed_nodes"

definition get_affected_nodes :: "DependencyGraph \<Rightarrow> string pyset \<Rightarrow> string pyset" where
  "get_affected_nodes g changed_nodes = fst (bfs_run g changed_nodes)"

definition visit_order :: "DependencyGraph \<Rightarrow> string pyset \<Rightarrow> string list" where
  \<comment> \<open>the nodes \<open>get_affected_nodes\<close> pops from its queue, in order\<close>
  "visit_order g changed_nodes = snd (bfs_run g changed_nodes)"

definition dependents_rel :: "DependencyGraph \<Rightarrow> (string \<times> string) set" where
  \<comment> \<open>the reverse relation: \<open>(n, d)\<close> when \<open>d\<close> is a dependent of \<open>n\<close>\<close>
  "dependents_rel g = {(n, d). d \<in> set (get_dependents g n)}"

section \<open>Frame identifiers\<close>

text \<open>\<open>str(i)\<close> for a Python int, and the f-string \<open>f"frame_{i}"\<close>.\<close>

definition digit_char :: "nat \<Rightarrow> char" where
  "digit_char d = ''0123456789'' ! d"

function str_nat :: "nat \<Rightarrow> string" where
  "str_nat n = (if n < 10 then [digit_char n] else str_nat (n div 10) @ [digit_char (n mod 10)])"
  by pat_completeness auto
termination
  by (relation "measure id") auto

declare str_nat.simps [simp del]

definition str_int :: "int \<Rightarrow> string" where
  "str_int i = (if i < 0 then CHR ''-'' # str_nat (nat (- i)) else str_nat (nat i))"

definition frame_id_of :: "int \<Rightarrow> string" where
  "frame_id_of i = ''frame_'' @ str_int i"

definition chain_graph :: "nat \<Rightarrow> DependencyGraph" where
  \<comment> \<open>the linear chain with the edges \<open>frame_i -> frame_(i-1)\<close> for \<open>i = 1..n-1\<close>\<close>
  "chain_graph n =
     foldl (\<lambda>g i. add_dependency g (frame_id_of (int i)) (frame_id_of (int i - 1)))
       DependencyGraph_init [1..<n]"

section \<open>TemporalCache\<close>

text \<open>
  A tensor is modelled by its shape only; the samples are placeholders (\<open>torch.randn\<close>)
  in the source and no operation of the cache reads them. \<open>element_size()\<close> is 4, the
  size of torch's default dtype \<open>float32\<close>. Timestamps (\<open>time.time()\<close>) are rationals;
  every operation that reads the clock takes the value read as its argument \<open>now\<close>.
\<close>

datatype Tensor = Tensor (rows: nat) (cols: nat)

definition element_size :: "Tensor \<Rightarrow> int" where
  "element_size t = 4"

definition nelement :: "Tensor \<Rightarrow> int" where
  "nelement t = int (rows t * cols t)"

record CacheEntry =
  timestamp :: rat
  activations :: Tensor
  dependencies :: "string pyset"
  hit_count :: int
  size_bytes :: int

type_synonym cache_dict = "(string \<times> CacheEntry) list"

record TemporalCache =
  max_size_bytes :: int
  eviction_policy :: string
  cache :: cache_dict
  current_size_bytes :: int
  hits :: int
  misses :: int
  evictions :: int

definition py_int :: "rat \<Rightarrow> int" where
  \<comment> \<open>\<open>int(x)\<close> of a float: truncation towards zero\<close>
  "py_int x = (if x < 0 then - \<lfloor>- x\<rfloor> else \<lfloor>x\<rfloor>)"

definition TemporalCache_init :: "rat \<Rightarrow> string \<Rightarrow> TemporalCache" where
  "TemporalCache_init max_size_mb policy =
     \<lparr>max_size_bytes = py_int (max_size_mb * 1024 * 1024), eviction_policy = policy,
      cache = [], current_size_bytes = 0, hits = 0, misses = 0, evictions = 0\<rparr>"

fun dict_set :: "('k \<times> 'v) list \<Rightarrow> 'k \<Rightarrow> 'v \<Rightarrow> ('k \<times> 'v) list" where
  \<comment> \<open>\<open>d[k] = v\<close>: a present key keeps its place, a new key goes last\<close>
  "dict_set [] k v = [(k, v)]"
| "dict_set ((k', v') # d) k v = (if k' = k then (k, v) # d else (k', v') # dict_set d k v)"

definition dict_del :: "('k \<times> 'v) list \<Rightarrow> 'k \<Rightarrow> ('k \<times> 'v) list" where
  \<comment> \<open>\<open>del d[k]\<close>, for a key that is present\<close>
  "dict_del d k = filter (\<lambda>p. fst p \<noteq> k) d"

definition get :: "TemporalCache \<Rightarrow> string \<Rightarrow> rat \<Rightarrow> Tensor option \<times> TemporalCache" where
  "get c key now =
     (case map_of (cache c) key of
        Some entry \<Rightarrow>
          (Some (activations entry),
           c\<lparr>hits := hits c + 1,
             cache := dict_set (cache c) key
                        (entry\<lparr>hit_count := hit_count entry + 1, timestamp := now\<rparr>)\<rparr>)
      | None \<Rightarrow> (None, c\<lparr>misses := misses c + 1\<rparr>))"

fun py_min_by :: "('a \<Rightarrow> 'o::linorder) \<Rightarrow> 'a list \<Rightarrow> 'a option" where
  \<comment> \<open>\<open>min(xs, key=f)\<close>: the first minimal element; \<open>None\<close> is the ValueError on an empty
     sequence\<close>
  "py_min_by f [] = None"
| "py_min_by f (x # xs) = Some (foldl (\<lambda>best y. if f y < f best then y else best) x xs)"

text \<open>
  \<open>_evict_one\<close>. The source takes the minimum over the keys, ordered by the field of the
  entry stored under each key, and then reads the entry under that key; the model takes
  the minimum over the items of the dict, which is the same pair.
\<close>

definition evict_one :: "TemporalCache \<Rightarrow> (error + unit) \<times> TemporalCache" where
  "evict_one c =
     (if eviction_policy c = ''lru'' then
        (case py_min_by (\<lambda>p. timestamp (snd p)) (cache c) of
           None \<Rightarrow> (Inl ValueError, c)
         | Some (lru_key, entry) \<Rightarrow>
             (Inr (), c\<lparr>current_size_bytes := current_size_bytes c - size_bytes entry,
                        cache := dict_del (cache c) lru_key,
                        evictions := evictions c + 1\<rparr>))
      else if eviction_policy c = ''lfu'' then
        (case py_min_by (\<lambda>p. hit_count (snd p)) (cache c) of
           None \<Rightarrow> (Inl ValueError, c)
         | Some (lfu_key, entry) \<Rightarrow>
             (Inr (), c\<lparr>current_size_bytes := current_size_bytes c - size_bytes entry,
                        cache := dict_del (cache c) lfu_key,
                        evictions := evictions c + 1\<rparr>))
      else (Inr (), c))"

text \<open>
  The \<open>while\<close> loop of \<open>put\<close>. It returns \<open>True\<close> when the loop condition became false
  (the entry fits) and \<open>False\<close> at the early \<open>return\<close> on an empty cache; \<open>None\<close> is a loop
  that never ends.
\<close>

partial_function (option) evict_loop :: "TemporalCache \<Rightarrow> int \<Rightarrow> ((error + bool) \<times> TemporalCache) option" where
  "evict_loop c sz =
     (if current_size_bytes c + sz > max_size_bytes c then
        (if cache c = [] then Some (Inr False, c)
         else (case evict_one c of
                 (Inl e, c') \<Rightarrow> Some (Inl e, c')
               | (Inr u, c') \<Rightarrow> evict_loop c' sz))
      else Some (Inr True, c))"

declare evict_loop.simps [code]

definition put :: "TemporalCache \<Rightarrow> string \<Rightarrow> Tensor \<Rightarrow> string pyset \<Rightarrow> rat \<Rightarrow> ((error + unit) \<times> TemporalCache) option" where
  "put c key acts deps now =
     (let sz = element_size acts * nelement acts in
      case evict_loop c sz of
        None \<Rightarrow> None
      | Some (Inl e, c') \<Rightarrow> Some (Inl e, c')
      | Some (Inr False, c') \<Rightarrow> Some (Inr (), c')
      | Some (Inr True, c') \<Rightarrow>
          (let entry = \<lparr>timestamp = now, activations = acts, dependencies = deps,
                        hit_count = 0, size_bytes = sz\<rparr>
           in Some (Inr (), c'\<lparr>cache := dict_set (cache c') key entry,
                               current_size_bytes := current_size_bytes c' + sz\<rparr>)))"

fun invalidate :: "TemporalCache \<Rightarrow> string pyset \<Rightarrow> TemporalCache" where
  "invalidate c [] = c"
| "invalidate c (key # keys) =
     (case map_of (cache c) key of
        Some entry \<Rightarrow>
          invalidate (c\<lparr>current_size_bytes := current_size_bytes c - size_bytes entry,
                        cache := dict_del (cache c) key\<rparr>) keys
      | None \<Rightarrow> invalidate c keys)"

definition clear :: "TemporalCache \<Rightarrow> TemporalCache" where
  "clear c = c\<lparr>cache := [], current_size_bytes := 0\<rparr>"

record Stats =
  stat_hits :: int
  stat_misses :: int
  hit_rate :: rat
  stat_evictions :: int
  current_size_mb :: rat
  max_size_mb :: rat
  utilization :: rat
  num_entries :: int

definition get_stats :: "TemporalCache \<Rightarrow> error + Stats" where
  \<comment> \<open>\<open>current_size_bytes / max_size_bytes\<close> raises ZeroDivisionError when the capacity is 0\<close>
  "get_stats c =
     (let total_requests = hits c + misses c;
          rate = (if total_requests > 0 then of_int (hits c) / of_int total_requests else 0)
      in if max_size_bytes c = 0 then Inl ZeroDivisionError
         else Inr \<lparr>stat_hits = hits c, stat_misses = misses c, hit_rate = rate,
                   stat_evictions = evictions c,
                   current_size_mb = of_int (current_size_bytes c) / 1024 / 1024,
                   max_size_mb = of_int (max_size_bytes c) / 1024 / 1024,
                   utilization = of_int (current_size_bytes c) / of_int (max_size_bytes c),
                   num_entries = int (length (cache c))\<rparr>)"

definition stored_bytes :: "TemporalCache \<Rightarrow> int" where
  \<comment> \<open>\<open>sum(entry.size_bytes for entry in cache.values())\<close>\<close>
  "stored_bytes c = sum_list (map (\<lambda>p. size_bytes (snd p)) (cache c))"

text \<open>A sequence of calls on one cache; \<open>None\<close> when a call never returns.\<close>

datatype cache_op =
    Put string Tensor "string pyset" rat
  | Get string rat
  | Invalidate "string pyset"
  | Clear

fun apply_op :: "TemporalCache \<Rightarrow> cache_op \<Rightarrow> TemporalCache option" where
  "apply_op c (Put key acts deps now) = map_option snd (put c key acts deps now)"
| "apply_op c (Get key now) = Some (snd (get c key now))"
| "apply_op c (Invalidate keys) = Some (invalidate c keys)"
| "apply_op c Clear = Some (clear c)"

fun run_ops :: "TemporalCache \<Rightarrow> cache_op list \<Rightarrow> TemporalCache option" where
  "run_ops c [] = Some c"
| "run_ops c (op # ops) = (case apply_op c op of None \<Rightarrow> None | Some c' \<Rightarrow> run_ops c' ops)"

text \<open>The clock readings a sequence of calls passes to the cache.\<close>

fun op_times :: "cache_op list \<Rightarrow> rat list" where
  "op_times [] = []"
| "op_times (Put key acts deps t # ops) = t # op_times ops"
| "op_times (Get key t # ops) = t # op_times ops"
| "op_times (op # ops) = op_times ops"

text \<open>Notions used to state the properties of the cache.\<close>

definition known_policy :: "TemporalCache \<Rightarrow> bool" where
  \<comment> \<open>the policies \<open>_evict_one\<close> has a branch for\<close>
  "known_policy c = (eviction_policy c = ''lru'' \<or> eviction_policy c = ''lfu'')"

definition evicted :: "TemporalCache \<Rightarrow> string \<Rightarrow> CacheEntry \<Rightarrow> TemporalCache" where
  \<comment> \<open>the cache after \<open>_evict_one\<close> has removed the entry \<open>e\<close> stored under \<open>k\<close>\<close>
  "evicted c k e = c\<lparr>current_size_bytes := current_size_bytes c - size_bytes e,
                      cache := dict_del (cache c) k,
                      evictions := evictions c + 1\<rparr>"

definition lru_key :: "TemporalCache \<Rightarrow> string option" where
  \<comment> \<open>\<open>min(self.cache.keys(), key=lambda k: self.cache[k].timestamp)\<close>\<close>
  "lru_key c = map_option fst (py_min_by (\<lambda>p. timestamp (snd p)) (cache c))"

definition cache_inv :: "TemporalCache \<Rightarrow> bool" where
  "cache_inv c =
     (distinct (map fst (cache c))
      \<and> (\<forall>p \<in> set (cache c). 0 \<le> size_bytes (snd p))
      \<and> stored_bytes c \<le> current_size_bytes c
      \<and> current_size_bytes c \<le> max_size_bytes c
      \<and> 0 \<le> max_size_bytes c)"

section \<open>SparseInferenceEngine\<close>

text \<open>
  The torch operations the engine uses, on shapes. \<open>torch.randn(1, n)\<close> raises a
  RuntimeError for a negative \<open>n\<close>. \<open>t[:, start:stop]\<close> follows Python's slice rules (a
  negative bound counts from the end, and both bounds are clipped to the width).
  \<open>t[:, start:stop] = src\<close> copies \<open>src\<close> into the slice and raises a RuntimeError unless
  \<open>src\<close> is as wide as the slice or has width 1 (broadcast); on \<open>None\<close> it is a TypeError.
\<close>

definition torch_randn :: "int \<Rightarrow> int \<Rightarrow> error + Tensor" where
  "torch_randn r n = (if r < 0 \<or> n < 0 then Inl RuntimeError else Inr (Tensor (nat r) (nat n)))"

definition slice_bound :: "int \<Rightarrow> int \<Rightarrow> int" where
  "slice_bound n i = (if i < 0 then max 0 (i + n) else min i n)"

definition slice_width :: "Tensor \<Rightarrow> int \<Rightarrow> int \<Rightarrow> nat" where
  "slice_width t start stop =
     nat (slice_bound (int (cols t)) stop - slice_bound (int (cols t)) start)"

definition slice_cols :: "Tensor \<Rightarrow> int \<Rightarrow> int \<Rightarrow> Tensor" where
  "slice_cols t start stop = Tensor (rows t) (slice_width t start stop)"

definition slice_assign :: "Tensor option \<Rightarrow> int \<Rightarrow> int \<Rightarrow> Tensor \<Rightarrow> error + Tensor" where
  "slice_assign buf start stop src =
     (case buf of
        None \<Rightarrow> Inl TypeError
      | Some t \<Rightarrow>
          if (cols src = slice_width t start stop \<or> cols src = 1) \<and> (rows src = rows t \<or> rows src = 1)
          then Inr t else Inl RuntimeError)"

text \<open>
  \<open>int(a / b)\<close> for Python ints \<open>a\<close>, \<open>b\<close>. The true division \<open>a / b\<close> raises a
  ZeroDivisionError for \<open>b = 0\<close>; otherwise it is the double nearest to the exact quotient
  (53 significant bits, ties to even), and an OverflowError when that is \<open>2^1024\<close> or more.
  \<open>int\<close> then truncates towards zero. With \<open>2^e \<le> |a| / |b| < 2^(e+1)\<close>, the double is
  \<open>m * 2^(e - 52)\<close> for the integer \<open>m\<close> nearest to \<open>|a| / |b| * 2^(52 - e)\<close>. (A quotient below
  \<open>2^(-1022)\<close> has fewer bits in a double; it truncates to 0 either way.)
\<close>

function bit_length :: "int \<Rightarrow> int" where
  \<comment> \<open>\<open>n.bit_length()\<close> for \<open>n \<ge> 0\<close>\<close>
  "bit_length n = (if n \<le> 0 then 0 else 1 + bit_length (n div 2))"
  by pat_completeness auto
termination
  by (relation "measure nat") auto

declare bit_length.simps [simp del]

definition round_div :: "int \<Rightarrow> int \<Rightarrow> int" where
  \<comment> \<open>the integer nearest to \<open>num / den\<close> (\<open>den > 0\<close>), ties to even\<close>
  "round_div num den =
     (let q = num div den; r = num mod den
      in if 2 * r < den then q else if den < 2 * r then q + 1 else if even q then q else q + 1)"

definition frame_index :: "int \<Rightarrow> int \<Rightarrow> error + int" where
  "frame_index a b =
     (if b = 0 then Inl ZeroDivisionError
      else if a = 0 then Inr 0
      else
        (let n = \<bar>a\<bar>; d = \<bar>b\<bar>;
             e0 = bit_length n - bit_length d;
             e = (if d * 2 ^ nat e0 \<le> n * 2 ^ nat (- e0) then e0 else e0 - 1);
             s = 52 - e;
             m = round_div (n * 2 ^ nat s) (d * 2 ^ nat (- s))
         in if 1024 \<le> e \<or> (e = 1023 \<and> m = 2 ^ 53) then Inl OverflowError
            else Inr (sgn a * sgn b * ((m * 2 ^ nat (- s)) div 2 ^ nat s))))"

text \<open>\<open>int(frame_id.split('_')[1])\<close>.\<close>

fun split_on :: "char \<Rightarrow> string \<Rightarrow> string list" where
  \<comment> \<open>\<open>s.split(c)\<close>\<close>
  "split_on c [] = [[]]"
| "split_on c (x # xs) =
     (if x = c then [] # split_on c xs
      else (case split_on c xs of [] \<Rightarrow> [[x]] | p # ps \<Rightarrow> (x # p) # ps))"

definition is_digit :: "char \<Rightarrow> bool" where
  "is_digit ch = (ch \<in> set ''0123456789'')"

definition digit_val :: "char \<Rightarrow> int" where
  "digit_val ch = int (of_char ch) - 48"

definition is_space :: "char \<Rightarrow> bool" where
  "is_space ch = (ch \<in> {CHR '' '', CHR 0x09, CHR 0x0A, CHR 0x0B, CHR 0x0C, CHR 0x0D})"

definition strip :: "string \<Rightarrow> string" where
  "strip s = rev (dropWhile is_space (rev (dropWhile is_space s)))"

definition parse_digits :: "string \<Rightarrow> error + int" where
  "parse_digits ds =
     (if ds = [] \<or> \<not> list_all is_digit ds then Inl ValueError
      else Inr (foldl (\<lambda>a ch. 10 * a + digit_val ch) 0 ds))"

definition parse_int :: "string \<Rightarrow> error + int" where
  \<comment> \<open>\<open>int(s)\<close> for a string without underscores: blanks around, a sign, decimal digits\<close>
  "parse_int s =
     (case strip s of
        ch # r \<Rightarrow>
          if ch = CHR ''-'' then map_sum id uminus (parse_digits r)
          else if ch = CHR ''+'' then parse_digits r
          else parse_digits (ch # r)
      | [] \<Rightarrow> Inl ValueError)"

definition parse_frame_idx :: "string \<Rightarrow> error + int" where
  "parse_frame_idx frame_id =
     (case split_on CHR ''_'' frame_id of
        p0 # p1 # ps \<Rightarrow> parse_int p1
      | _ \<Rightarrow> Inl IndexError)"

text \<open>
  The engine. The field \<open>model\<close> is left out: no method reads it. \<open>self.cache\<close> is the
  field \<open>engine_cache\<close>. The audio buffer is a tensor of shape \<open>(1, num_samples)\<close>.
  \<open>audio_writes\<close> is a ghost field, not in the source: since a tensor is modelled by its
  shape, the slice assignments \<open>current_audio[:, start:stop] = ...\<close> made on the current
  buffer are recorded here, as the pairs \<open>(start, stop)\<close> in the order they were made.
\<close>

record EditOperation =
  edit_id :: string
  edit_type :: string
  start_time :: rat
  end_time :: rat
  affected_region :: "int \<times> int"

record SparseInferenceEngine =
  frame_size :: int
  dependency_graph :: DependencyGraph
  engine_cache :: TemporalCache
  current_audio :: "Tensor option"
  audio_writes :: "(int \<times> int) list"
  current_length_frames :: int

definition SparseInferenceEngine_init :: "rat \<Rightarrow> int \<Rightarrow> SparseInferenceEngine" where
  "SparseInferenceEngine_init cache_size_mb fs =
     \<lparr>frame_size = fs, dependency_graph = DependencyGraph_init,
      engine_cache = TemporalCache_init cache_size_mb ''lru'',
      current_audio = None, audio_writes = [], current_length_frames = 0\<rparr>"

text \<open>
  The clock: \<open>now k\<close> is the value \<open>time.time()\<close> returns at the \<open>k\<close>-th place of a call
  where the clock may be read (the start of the call, each \<open>cache.get\<close>, each \<open>cache.put\<close>,
  the end of the call). A \<open>get\<close> that misses and a \<open>put\<close> that is discarded do not read it
  and leave their value unused.
\<close>

type_synonym clock = "nat \<Rightarrow> rat"

text \<open>The loop \<open>for i in range(num_frames)\<close> of \<open>generate_full\<close>.\<close>

fun gen_frames :: "clock \<Rightarrow> nat \<Rightarrow> SparseInferenceEngine \<Rightarrow> Tensor \<Rightarrow> int list \<Rightarrow> ((error + nat) \<times> SparseInferenceEngine) option" where
  "gen_frames now k eng audio [] = Some (Inr k, eng)"
| "gen_frames now k eng audio (i # rest) =
     (let frame_start = i * frame_size eng;
          frame_end = (i + 1) * frame_size eng;
          frame_audio = slice_cols audio frame_start frame_end;
          frame_id = frame_id_of i;
          deps = (if i > 0 then [frame_id_of (i - 1)] else []);
          g = (if i > 0 then add_dependency (dependency_graph eng) frame_id (frame_id_of (i - 1))
               else dependency_graph eng)
      in case put (engine_cache eng) frame_id frame_audio deps (now k) of
           None \<Rightarrow> None
         | Some (Inl e, c) \<Rightarrow> Some (Inl e, eng\<lparr>dependency_graph := g, engine_cache := c\<rparr>)
         | Some (Inr u, c) \<Rightarrow>
             gen_frames now (Suc k) (eng\<lparr>dependency_graph := g, engine_cache := c\<rparr>) audio rest)"

text \<open>
  \<open>generate_full\<close>. \<open>num_samples = int(duration_seconds * sample_rate)\<close> is computed on
  rationals (the rounding of the float product is not modelled); \<open>//\<close> is floor division.
\<close>

definition generate_full :: "clock \<Rightarrow> SparseInferenceEngine \<Rightarrow> string \<Rightarrow> rat \<Rightarrow> int \<Rightarrow> ((error + Tensor) \<times> SparseInferenceEngine) option" where
  "generate_full now eng prompt duration_seconds sample_rate =
     (let num_samples = py_int (duration_seconds * of_int sample_rate) in
      case torch_randn 1 num_samples of
        Inl e \<Rightarrow> Some (Inl e, eng)
      | Inr audio \<Rightarrow>
          if frame_size eng = 0 then Some (Inl ZeroDivisionError, eng)
          else
            (let num_frames = num_samples div frame_size eng in
             case gen_frames now 1 eng audio [0..num_frames - 1] of
               None \<Rightarrow> None
             | Some (Inl e, eng') \<Rightarrow> Some (Inl e, eng')
             | Some (Inr k, eng') \<Rightarrow>
                 Some (Inr audio, eng'\<lparr>current_audio := Some audio, audio_writes := [],
                                       current_length_frames := num_frames\<rparr>)))"

text \<open>
  \<open>all(self.cache.get(dep) is not None for dep in dependencies)\<close>: \<open>all\<close> stops at the
  first miss.
\<close>

fun all_deps_cached :: "clock \<Rightarrow> nat \<Rightarrow> TemporalCache \<Rightarrow> string list \<Rightarrow> bool \<times> TemporalCache \<times> nat" where
  "all_deps_cached now k c [] = (True, c, k)"
| "all_deps_cached now k c (dep # deps) =
     (case get c dep (now k) of
        (None, c') \<Rightarrow> (False, c', Suc k)
      | (Some t, c') \<Rightarrow> all_deps_cached now (Suc k) c' deps)"

text \<open>
  The loop \<open>for frame_id in sorted(affected_frames)\<close> of \<open>apply_edit\<close>. The log is the
  sequence of the loop's \<open>logger.debug\<close> lines: \<open>(frame_id, True)\<close> for "Recomputing
  frame_id with cached dependencies", \<open>(frame_id, False)\<close> for "Recomputing frame_id from
  scratch". An exception ends the loop and leaves the engine as it is at that point.
\<close>

type_synonym recompute_log = "(string \<times> bool) list"

fun recompute :: "clock \<Rightarrow> nat \<Rightarrow> SparseInferenceEngine \<Rightarrow> recompute_log \<Rightarrow> string list \<Rightarrow> ((error + nat) \<times> SparseInferenceEngine \<times> recompute_log) option" where
  "recompute now k eng lg [] = Some (Inr k, eng, lg)"
| "recompute now k eng lg (frame_id # rest) =
     (case parse_frame_idx frame_id of
        Inl e \<Rightarrow> Some (Inl e, eng, lg)
      | Inr frame_idx \<Rightarrow>
          (let deps = get_dependencies (dependency_graph eng) frame_id in
           case all_deps_cached now k (engine_cache eng) deps of
             (cached, c1, k1) \<Rightarrow>
               (let lg' = lg @ [(frame_id, cached)] in
                case torch_randn 1 (frame_size eng) of
                  Inl e \<Rightarrow> Some (Inl e, eng\<lparr>engine_cache := c1\<rparr>, lg')
                | Inr frame_audio \<Rightarrow>
                    (case put c1 frame_id frame_audio deps (now k1) of
                       None \<Rightarrow> None
                     | Some (Inl e, c2) \<Rightarrow> Some (Inl e, eng\<lparr>engine_cache := c2\<rparr>, lg')
                     | Some (Inr u, c2) \<Rightarrow>
                         (let frame_start = frame_idx * frame_size eng;
                              frame_end = (frame_idx + 1) * frame_size eng
                          in case slice_assign (current_audio eng) frame_start frame_end frame_audio of
                               Inl e \<Rightarrow> Some (Inl e, eng\<lparr>engine_cache := c2\<rparr>, lg')
                             | Inr audio \<Rightarrow>
                                 recompute now (Suc k1)
                                   (eng\<lparr>engine_cache := c2, current_audio := Some audio,
                                        audio_writes := audio_writes eng @ [(frame_start, frame_end)]\<rparr>)
                                   lg' rest)))))"

record Metrics =
  latency_ms :: rat
  frames_recomputed :: int
  frames_total :: int
  recompute_ratio :: rat
  speedup :: rat
  cache_stats :: Stats

definition frame_range :: "SparseInferenceEngine \<Rightarrow> EditOperation \<Rightarrow> error + int \<times> int" where
  \<comment> \<open>\<open>start_frame\<close> and \<open>end_frame\<close>\<close>
  "frame_range eng edit =
     (case frame_index (fst (affected_region edit)) (frame_size eng) of
        Inl e \<Rightarrow> Inl e
      | Inr start_frame \<Rightarrow>
          (case frame_index (snd (affected_region edit)) (frame_size eng) of
             Inl e \<Rightarrow> Inl e
           | Inr end_frame \<Rightarrow> Inr (start_frame, end_frame)))"

definition frames_between :: "int \<Rightarrow> int \<Rightarrow> string pyset" where
  \<comment> \<open>\<open>{f"frame_{i}" for i in range(start_frame, end_frame + 1)}\<close>\<close>
  "frames_between start_frame end_frame = remdups (map frame_id_of [start_frame..end_frame])"

text \<open>
  \<open>apply_edit\<close>. The result carries the engine after the call, also when the call raises,
  and the log of the recompute loop. The baseline of 100 ms per frame is the rational
  \<open>1/10\<close>.
\<close>

definition apply_edit :: "clock \<Rightarrow> SparseInferenceEngine \<Rightarrow> EditOperation \<Rightarrow> ((error + Metrics) \<times> SparseInferenceEngine \<times> recompute_log) option" where
  "apply_edit now eng edit =
     (case frame_range eng edit of
        Inl e \<Rightarrow> Some (Inl e, eng, [])
      | Inr (start_frame, end_frame) \<Rightarrow>
        (let changed = frames_between start_frame end_frame;
             affected = get_affected_nodes (dependency_graph eng) changed;
             c = invalidate (engine_cache eng) affected
         in case recompute now 1 (eng\<lparr>engine_cache := c\<rparr>) [] (sort affected) of
              None \<Rightarrow> None
            | Some (Inl e, eng', lg) \<Rightarrow> Some (Inl e, eng', lg)
            | Some (Inr k, eng', lg) \<Rightarrow>
                (let elapsed = now k - now 0;
                     baseline_time = of_nat (length affected) * (1 / 10);
                     sp = (if elapsed > 0 then baseline_time / elapsed else 1)
                 in if current_length_frames eng' = 0 then Some (Inl ZeroDivisionError, eng', lg)
                    else
                      (case get_stats (engine_cache eng') of
                         Inl e \<Rightarrow> Some (Inl e, eng', lg)
                       | Inr stats \<Rightarrow>
                           Some (Inr \<lparr>latency_ms = elapsed * 1000,
                                      frames_recomputed = int (length affected),
                                      frames_total = current_length_frames eng',
                                      recompute_ratio = of_nat (length affected)
                                                        / of_int (current_length_frames eng'),
                                      speedup = sp, cache_stats = stats\<rparr>,
                                 eng', lg)))))"

text \<open>
  Notions used to state the properties of the engine: the changed and the affected frames
  of an edit (empty when the frame range cannot be computed), the slice of the buffer a
  frame id stands for, what an entry of the cache holds apart from its access statistics,
  and the condition that the frames an edit recomputes fit the cache without an eviction.
\<close>

definition changed_frames :: "SparseInferenceEngine \<Rightarrow> EditOperation \<Rightarrow> string pyset" where
  "changed_frames eng edit =
     (case frame_range eng edit of
        Inl e \<Rightarrow> []
      | Inr (start_frame, end_frame) \<Rightarrow> frames_between start_frame end_frame)"

definition affected_frames :: "SparseInferenceEngine \<Rightarrow> EditOperation \<Rightarrow> string pyset" where
  "affected_frames eng edit = get_affected_nodes (dependency_graph eng) (changed_frames eng edit)"

definition frame_slice :: "int \<Rightarrow> string \<Rightarrow> int \<times> int" where
  \<comment> \<open>\<open>(frame_idx * frame_size, (frame_idx + 1) * frame_size)\<close>\<close>
  "frame_slice fs frame_id =
     (case parse_frame_idx frame_id of Inl e \<Rightarrow> (0, 0) | Inr i \<Rightarrow> (i * fs, (i + 1) * fs))"

definition entry_data :: "CacheEntry \<Rightarrow> Tensor \<times> string pyset \<times> int" where
  "entry_data e = (activations e, dependencies e, size_bytes e)"

definition cache_data :: "TemporalCache \<Rightarrow> string \<Rightarrow> (Tensor \<times> string pyset \<times> int) option" where
  "cache_data c key = map_option entry_data (map_of (cache c) key)"

definition edit_fits :: "SparseInferenceEngine \<Rightarrow> EditOperation \<Rightarrow> bool" where
  \<comment> \<open>after the invalidation, the running total leaves room for every affected frame\<close>
  "edit_fits eng edit =
     (current_size_bytes (invalidate (engine_cache eng) (affected_frames eng edit))
        + int (length (affected_frames eng edit)) * (4 * frame_size eng)
      \<le> max_size_bytes (engine_cache eng))"

text \<open>An edit with a given sample region, and a clock, used in examples.\<close>

definition edit_at :: "int \<Rightarrow> int \<Rightarrow> EditOperation" where
  "edit_at a b = \<lparr>edit_id = ''edit_1'', edit_type = ''modify'', start_time = 0, end_time = 0,
                  affected_region = (a, b)\<rparr>"

definition tick :: clock where
  \<comment> \<open>a clock that advances by one second at every reading\<close>
  "tick k = of_nat k"

text \<open>Two concrete cache states used as examples.\<close>

definition demo_cache :: "string \<Rightarrow> TemporalCache" where
  "demo_cache policy =
     \<lparr>max_size_bytes = 1024, eviction_policy = policy,
      cache = [(''frame_0'', \<lparr>timestamp = 1, activations = Tensor 1 100, dependencies = [],
                              hit_count = 0, size_bytes = 400\<rparr>),
               (''frame_1'', \<lparr>timestamp = 2, activations = Tensor 1 100, dependencies = [''frame_0''],
                              hit_count = 0, size_bytes = 400\<rparr>)],
      current_size_bytes = 800, hits = 0, misses = 0, evictions = 0\<rparr>"

definition one_frame_cache :: TemporalCache where
  \<comment> \<open>\<open>TemporalCache(max_size_mb=1.0)\<close> after \<open>put("frame_0", torch.randn(1, 512), set())\<close>\<close>
  "one_frame_cache =
     \<lparr>max_size_bytes = 1048576, eviction_policy = ''lru'',
      cache = [(''frame_0'', \<lparr>timestamp = 1, activations = Tensor 1 512, dependencies = [],
                              hit_count = 0, size_bytes = 2048\<rparr>)],
      current_size_bytes = 2048, hits = 0, misses = 0, evictions = 0\<rparr>"

text \<open>The entry the engine stores for a frame of 512 samples, used in examples.\<close>

definition frame_entry :: "rat \<Rightarrow> int \<Rightarrow> int \<Rightarrow> CacheEntry" where
  \<comment> \<open>the entry of frame \<open>i\<close> of 512 samples, last accessed at time \<open>t\<close> and read \<open>hc\<close> times\<close>
  "frame_entry t i hc =
     \<lparr>timestamp = t, activations = Tensor 1 512,
      dependencies = (if i = 0 then [] else [frame_id_of (i - 1)]),
      hit_count = hc, size_bytes = 2048\<rparr>"

section \<open>Properties of the dependency graph\<close>

lemma visit_dependents_new:
  "visit_dependents ds a q = (a', q') \<Longrightarrow>
     \<exists>new. a' = a @ new \<and> q' = q @ new \<and> distinct new \<and> set new = set ds - set a"
proof (induction ds a q rule: visit_dependents.induct)
  case (1 affected queue)
  then show ?case by simp
next
  case (2 dep ds affected queue)
  show ?case
  proof (cases "dep \<in> set affected")
    case True
    with 2 obtain new where "a' = affected @ new" "q' = queue @ new" "distinct new"
        "set new = set ds - set affected" by auto
    with True show ?thesis by auto
  next
    case False
    with 2 obtain new where n: "a' = (affected @ [dep]) @ new" "q' = (queue @ [dep]) @ new"
        "distinct new" "set new = set ds - set (affected @ [dep])" by auto
    show ?thesis
      by (rule exI[of _ "dep # new"]) (use n False in auto)
  qed
qed

lemma bfs_distinct_affected:
  "distinct a \<Longrightarrow> distinct (fst (bfs g a v q))"
proof (induction g a v q rule: bfs.induct)
  case (1 g affected visited)
  then show ?case by simp
next
  case (2 g affected visited node queue)
  obtain a' q' where vis: "visit_dependents (get_dependents g node) affected queue = (a', q')"
    by (cases "visit_dependents (get_dependents g node) affected queue")
  from visit_dependents_new[OF vis] 2(2) have "distinct a'" by auto
  with 2(1)[OF vis[symmetric]] vis show ?case by simp
qed

lemma bfs_visited:
  "distinct (v @ q) \<Longrightarrow> set (v @ q) = set a \<Longrightarrow> bfs g a v q = (A, V) \<Longrightarrow> distinct V \<and> set V = set A"
proof (induction g a v q rule: bfs.induct)
  case (1 g affected visited)
  then show ?case by simp
next
  case (2 g affected visited node queue)
  obtain a' q' where vis: "visit_dependents (get_dependents g node) affected queue = (a', q')"
    by (cases "visit_dependents (get_dependents g node) affected queue")
  from visit_dependents_new[OF vis] obtain new where n: "a' = affected @ new" "q' = queue @ new"
     "distinct new" "set new = set (get_dependents g node) - set affected" by blast
  have d: "distinct ((visited @ [node]) @ q')" using 2(2,3) n by auto
  have s: "set ((visited @ [node]) @ q') = set a'" using 2(2,3) n by auto
  have "bfs g a' (visited @ [node]) q' = (A, V)" using 2(4) vis by simp
  from 2(1)[OF vis[symmetric] d s this] show ?case .
qed

lemma bfs_mono: "set a \<subseteq> set (fst (bfs g a v q))"
proof (induction g a v q rule: bfs.induct)
  case (1 g affected visited)
  then show ?case by simp
next
  case (2 g affected visited node queue)
  obtain a' q' where vis: "visit_dependents (get_dependents g node) affected queue = (a', q')"
    by (cases "visit_dependents (get_dependents g node) affected queue")
  from visit_dependents_affected[OF vis] 2(1)[OF vis[symmetric]] vis show ?case by auto
qed

lemma bfs_sound: "set (fst (bfs g a v q)) \<subseteq> set a \<union> (dependents_rel g)\<^sup>* `` set q"
proof (induction g a v q rule: bfs.induct)
  case (1 g affected visited)
  then show ?case by simp
next
  case (2 g affected visited node queue)
  let ?R = "dependents_rel g"
  obtain a' q' where vis: "visit_dependents (get_dependents g node) affected queue = (a', q')"
    by (cases "visit_dependents (get_dependents g node) affected queue")
  from visit_dependents_new[OF vis] obtain new where n: "a' = affected @ new" "q' = queue @ new"
     "distinct new" "set new = set (get_dependents g node) - set affected" by blast
  have step: "set new \<subseteq> ?R `` {node}" using n by (auto simp: dependents_rel_def)
  have "?R\<^sup>* `` set new \<subseteq> ?R\<^sup>* `` {node}"
    using step by (auto intro: converse_rtrancl_into_rtrancl)
  then have sub: "set a' \<union> ?R\<^sup>* `` set q' \<subseteq> set affected \<union> ?R\<^sup>* `` set (node # queue)"
    using n step by auto
  have "set (fst (bfs g a' (visited @ [node]) q')) \<subseteq> set a' \<union> ?R\<^sup>* `` set q'"
    by (rule 2(1)[OF vis[symmetric]])
  then have "set (fst (bfs g a' (visited @ [node]) q')) \<subseteq> set affected \<union> ?R\<^sup>* `` set (node # queue)"
    using sub by (rule subset_trans)
  then show ?case using vis by simp
qed

lemma bfs_closed:
  "\<forall>x \<in> set a - set q. (dependents_rel g) `` {x} \<subseteq> set a \<Longrightarrow>
   \<forall>x \<in> set (fst (bfs g a v q)). (dependents_rel g) `` {x} \<subseteq> set (fst (bfs g a v q))"
proof (induction g a v q rule: bfs.induct)
  case (1 g affected visited)
  then show ?case by simp
next
  case (2 g affected visited node queue)
  let ?R = "dependents_rel g"
  obtain a' q' where vis: "visit_dependents (get_dependents g node) affected queue = (a', q')"
    by (cases "visit_dependents (get_dependents g node) affected queue")
  from visit_dependents_new[OF vis] obtain new where n: "a' = affected @ new" "q' = queue @ new"
     "distinct new" "set new = set (get_dependents g node) - set affected" by blast
  have "\<forall>x \<in> set a' - set q'. ?R `` {x} \<subseteq> set a'"
  proof
    fix x assume x: "x \<in> set a' - set q'"
    show "?R `` {x} \<subseteq> set a'"
    proof (cases "x = node")
      case True
      then show ?thesis using n by (auto simp: dependents_rel_def)
    next
      case False
      with x n have "x \<in> set affected - set (node # queue)" by auto
      with 2(2) have "?R `` {x} \<subseteq> set affected" by blast
      then show ?thesis using n by auto
    qed
  qed
  from 2(1)[OF vis[symmetric] this] vis show ?case by simp
qed

lemma closed_rtrancl_Image:
  assumes "C \<subseteq> S" "\<forall>x \<in> S. R `` {x} \<subseteq> S"
  shows "R\<^sup>* `` C \<subseteq> S"
proof
  fix y assume "y \<in> R\<^sup>* `` C"
  then obtain c where c: "c \<in> C" "(c, y) \<in> R\<^sup>*" by blast
  from c(2) show "y \<in> S"
    by (induction rule: rtrancl_induct) (use c(1) assms in auto)
qed

lemma get_affected_nodes_set:
  "set (get_affected_nodes g changed) = (dependents_rel g)\<^sup>* `` set changed"
proof
  show "set (get_affected_nodes g changed) \<subseteq> (dependents_rel g)\<^sup>* `` set changed"
    using bfs_sound[of g "remdups changed" "[]" changed]
    by (auto simp: get_affected_nodes_def bfs_run_def)
next
  let ?S = "set (fst (bfs g (remdups changed) [] changed))"
  have "set changed \<subseteq> ?S" using bfs_mono[of "remdups changed" g "[]" changed] by simp
  moreover have "\<forall>x \<in> ?S. (dependents_rel g) `` {x} \<subseteq> ?S"
    by (rule bfs_closed) simp
  ultimately have "(dependents_rel g)\<^sup>* `` set changed \<subseteq> ?S"
    by (rule closed_rtrancl_Image)
  then show "(dependents_rel g)\<^sup>* `` set changed \<subseteq> set (get_affected_nodes g changed)"
    by (simp add: get_affected_nodes_def bfs_run_def)
qed

lemma bfs_no_dependents:
  "\<forall>c \<in> set q. get_dependents g c = [] \<Longrightarrow> bfs g a v q = (a, v @ q)"
  by (induction q arbitrary: v) auto

text \<open>
  C2. \<open>get_affected_nodes(changed)\<close> returns, for every graph and every \<open>changed\<close>,
  exactly \<open>changed\<close> together with every node reachable from a member of \<open>changed\<close>
  through one or more steps of the dependents relation; the loop pops each of these nodes
  exactly once (no node twice); on the chain \<open>frame_i -> frame_(i-1)\<close>, \<open>i = 1..9\<close>, the
  result for \<open>{frame_3}\<close> is \<open>{frame_3, ..., frame_9}\<close> and for \<open>{frame_9}\<close> it is \<open>{frame_9}\<close>;
  and the result is \<open>changed\<close> when no member of \<open>changed\<close> has dependents.
\<close>

theorem get_affected_nodes_closure:
  "set (get_affected_nodes g changed)
     = set changed \<union> {n. \<exists>c \<in> set changed. (c, n) \<in> (dependents_rel g)\<^sup>+}
   \<and> distinct (get_affected_nodes g changed)
   \<and> (distinct changed \<longrightarrow>
        distinct (visit_order g changed)
        \<and> set (visit_order g changed) = set (get_affected_nodes g changed))
   \<and> set (get_affected_nodes (chain_graph 10) [''frame_3''])
        = {''frame_3'', ''frame_4'', ''frame_5'', ''frame_6'', ''frame_7'', ''frame_8'', ''frame_9''}
   \<and> set (get_affected_nodes (chain_graph 10) [''frame_9'']) = {''frame_9''}
   \<and> ((\<forall>c \<in> set changed. get_dependents g c = []) \<longrightarrow>
        set (get_affected_nodes g changed) = set changed)"
proof (intro conjI impI)
  have "(dependents_rel g)\<^sup>* `` set changed
          = set changed \<union> {n. \<exists>c \<in> set changed. (c, n) \<in> (dependents_rel g)\<^sup>+}"
    by (auto simp: rtrancl_eq_or_trancl)
  then show "set (get_affected_nodes g changed)
     = set changed \<union> {n. \<exists>c \<in> set changed. (c, n) \<in> (dependents_rel g)\<^sup>+}"
    by (simp add: get_affected_nodes_set)
next
  show "distinct (get_affected_nodes g changed)"
    unfolding get_affected_nodes_def bfs_run_def by (rule bfs_distinct_affected) simp
next
  assume d: "distinct changed"
  obtain A V where r: "bfs g (remdups changed) [] changed = (A, V)"
    by (cases "bfs g (remdups changed) [] changed")
  have "distinct V \<and> set V = set A"
    by (rule bfs_visited[OF _ _ r]) (use d in auto)
  then show "distinct (visit_order g changed)"
    and "set (visit_order g changed) = set (get_affected_nodes g changed)"
    by (simp_all add: visit_order_def get_affected_nodes_def bfs_run_def r)
next
  show "set (get_affected_nodes (chain_graph 10) [''frame_3''])
        = {''frame_3'', ''frame_4'', ''frame_5'', ''frame_6'', ''frame_7'', ''frame_8'', ''frame_9''}"
    by code_simp
next
  show "set (get_affected_nodes (chain_graph 10) [''frame_9'']) = {''frame_9''}"
    by code_simp
next
  assume "\<forall>c \<in> set changed. get_dependents g c = []"
  then have "bfs g (remdups changed) [] changed = (remdups changed, [] @ changed)"
    by (rule bfs_no_dependents)
  then show "set (get_affected_nodes g changed) = set changed"
    by (simp add: get_affected_nodes_def bfs_run_def)
qed

theorem get_affected_nodes_closure_witness:
  "distinct [''frame_8'']
   \<and> get_dependents (chain_graph 10) ''frame_9'' = []
   \<and> set (get_affected_nodes (chain_graph 10) [''frame_8''])
        = {''frame_8''} \<union> {n. \<exists>c \<in> set [''frame_8'']. (c, n) \<in> (dependents_rel (chain_graph 10))\<^sup>+}
   \<and> get_affected_nodes (chain_graph 10) [''frame_8''] = [''frame_8'', ''frame_9'']
   \<and> visit_order (chain_graph 10) [''frame_8''] = [''frame_8'', ''frame_9'']
   \<and> distinct (visit_order (chain_graph 10) [''frame_8''])
   \<and> set (get_affected_nodes (chain_graph 10) [''frame_9'']) = set [''frame_9'']"
proof -
  have e: "get_affected_nodes (chain_graph 10) [''frame_8''] = [''frame_8'', ''frame_9'']"
    by code_simp
  have v: "visit_order (chain_graph 10) [''frame_8''] = [''frame_8'', ''frame_9'']"
    by code_simp
  have n: "get_dependents (chain_graph 10) ''frame_9'' = []"
    by code_simp
  show ?thesis
    using get_affected_nodes_closure[of "chain_graph 10" "[''frame_8'']"]
          get_affected_nodes_closure[of "chain_graph 10" "[''frame_9'']"] e v n
    by simp
qed

section \<open>Properties of the cache\<close>

lemma foldl_min_in:
  "foldl (\<lambda>best y. if f y < f best then y else best) b ys \<in> set (b # ys)"
  by (induction ys arbitrary: b) auto

lemma foldl_min_le:
  fixes f :: "'a \<Rightarrow> 'o::linorder"
  shows "x \<in> set (b # ys) \<Longrightarrow> f (foldl (\<lambda>best y. if f y < f best then y else best) b ys) \<le> f x"
proof (induction ys arbitrary: b x)
  case Nil
  then show ?case by simp
next
  case (Cons y ys)
  let ?b' = "if f y < f b then y else b"
  have le_b: "f (foldl (\<lambda>best y. if f y < f best then y else best) ?b' ys) \<le> f ?b'"
    using Cons.IH[where x = ?b' and b = ?b'] by simp
  show ?case
  proof (cases "x \<in> set ys")
    case True
    then have "f (foldl (\<lambda>best y. if f y < f best then y else best) ?b' ys) \<le> f x"
      using Cons.IH[where x = x and b = ?b'] by simp
    then show ?thesis by simp
  next
    case False
    with Cons.prems have "x = b \<or> x = y" by auto
    then have "f ?b' \<le> f x" by auto
    with le_b show ?thesis by simp
  qed
qed

lemma py_min_by_Some:
  "xs \<noteq> [] \<Longrightarrow> \<exists>m. py_min_by f xs = Some m"
  by (cases xs) auto

lemma py_min_by_in: "py_min_by f xs = Some m \<Longrightarrow> m \<in> set xs"
  using foldl_min_in[of f] by (cases xs) auto

lemma py_min_by_le:
  fixes f :: "'a \<Rightarrow> 'o::linorder"
  shows "py_min_by f xs = Some m \<Longrightarrow> x \<in> set xs \<Longrightarrow> f m \<le> f x"
  using foldl_min_le[of x _ _ f] by (cases xs) auto

lemma dict_del_length:
  "distinct (map fst d) \<Longrightarrow> (k, v) \<in> set d \<Longrightarrow> length (dict_del d k) < length d"
  unfolding dict_del_def by (induction d) (auto simp: less_Suc_eq_le)

lemma dict_del_sum:
  fixes g :: "'v \<Rightarrow> int"
  shows "distinct (map fst d) \<Longrightarrow> (k, v) \<in> set d \<Longrightarrow>
     sum_list (map (\<lambda>p. g (snd p)) (dict_del d k)) = sum_list (map (\<lambda>p. g (snd p)) d) - g v"
  unfolding dict_del_def
proof (induction d)
  case Nil
  then show ?case by simp
next
  case (Cons p d)
  show ?case
  proof (cases "fst p = k")
    case True
    with Cons.prems have "p = (k, v)" by (auto simp: rev_image_eqI)
    moreover have "filter (\<lambda>p. fst p \<noteq> k) d = d"
      using Cons.prems True by (auto simp: filter_id_conv rev_image_eqI)
    ultimately show ?thesis by simp
  next
    case False
    with Cons show ?thesis by auto
  qed
qed

lemma dict_del_distinct: "distinct (map fst d) \<Longrightarrow> distinct (map fst (dict_del d k))"
  unfolding dict_del_def by (simp add: distinct_map_filter)

lemma dict_del_set: "set (dict_del d k) \<subseteq> set d"
  unfolding dict_del_def by auto

lemma dict_set_map_of: "map_of (dict_set d k v) = (map_of d)(k \<mapsto> v)"
  by (induction d) auto

lemma dict_set_keys: "fst ` set (dict_set d k v) = insert k (fst ` set d)"
  by (simp add: dict_set_map_of flip: dom_map_of_conv_image_fst)

lemma dict_set_distinct: "distinct (map fst d) \<Longrightarrow> distinct (map fst (dict_set d k v))"
  by (induction d) (auto simp: dict_set_keys)

lemma dict_set_set: "set (dict_set d k v) \<subseteq> insert (k, v) (set d)"
  by (induction d) (auto split: if_splits)

lemma dict_set_sum:
  fixes g :: "'v \<Rightarrow> int"
  shows "distinct (map fst d) \<Longrightarrow>
     sum_list (map (\<lambda>p. g (snd p)) (dict_set d k v))
       = sum_list (map (\<lambda>p. g (snd p)) d) - (case map_of d k of None \<Rightarrow> 0 | Some w \<Rightarrow> g w) + g v"
proof (induction d)
  case Nil
  then show ?case by simp
next
  case (Cons p d)
  obtain k' v' where p: "p = (k', v')" by (cases p)
  show ?case
  proof (cases "k' = k")
    case True
    then show ?thesis using p by simp
  next
    case False
    then show ?thesis using p Cons by simp
  qed
qed

lemma evict_one_known:
  assumes "known_policy c" "cache c \<noteq> []"
  shows "\<exists>k e. (k, e) \<in> set (cache c) \<and> evict_one c = (Inr (), evicted c k e)
           \<and> (eviction_policy c = ''lru'' \<longrightarrow> (\<forall>p \<in> set (cache c). timestamp e \<le> timestamp (snd p)))
           \<and> (eviction_policy c = ''lfu'' \<longrightarrow> (\<forall>p \<in> set (cache c). hit_count e \<le> hit_count (snd p)))"
proof (cases "eviction_policy c = ''lru''")
  case True
  from assms(2) obtain m where m: "py_min_by (\<lambda>p. timestamp (snd p)) (cache c) = Some m"
    using py_min_by_Some by blast
  obtain k e where ke: "m = (k, e)" by (cases m)
  have "(k, e) \<in> set (cache c)" using py_min_by_in[OF m] ke by simp
  moreover have "\<forall>p \<in> set (cache c). timestamp e \<le> timestamp (snd p)"
    using py_min_by_le[OF m] ke by auto
  moreover have "evict_one c = (Inr (), evicted c k e)"
    using True m ke by (simp add: evict_one_def evicted_def)
  ultimately show ?thesis using True by auto
next
  case False
  with assms(1) have lfu: "eviction_policy c = ''lfu''" by (simp add: known_policy_def)
  from assms(2) obtain m where m: "py_min_by (\<lambda>p. hit_count (snd p)) (cache c) = Some m"
    using py_min_by_Some by blast
  obtain k e where ke: "m = (k, e)" by (cases m)
  have "(k, e) \<in> set (cache c)" using py_min_by_in[OF m] ke by simp
  moreover have "\<forall>p \<in> set (cache c). hit_count e \<le> hit_count (snd p)"
    using py_min_by_le[OF m] ke by auto
  moreover have "evict_one c = (Inr (), evicted c k e)"
    using lfu m ke by (simp add: evict_one_def evicted_def)
  ultimately show ?thesis using lfu by auto
qed

lemma dict_del_shorter: "(k, v) \<in> set d \<Longrightarrow> length (dict_del d k) < length d"
  unfolding dict_del_def by (rule length_filter_less[of "(k, v)"]) auto

text \<open>A loop rule for \<open>evict_loop\<close> under a recognised policy.\<close>

lemma evict_loop_rule:
  assumes pol: "known_policy c"
    and I: "I c"
    and step: "\<And>c k e. I c \<Longrightarrow> known_policy c \<Longrightarrow> max_size_bytes c < current_size_bytes c + sz \<Longrightarrow>
                 (k, e) \<in> set (cache c) \<Longrightarrow> I (evicted c k e)"
  shows "\<exists>b c'. evict_loop c sz = Some (Inr b, c') \<and> I c' \<and> known_policy c'
           \<and> (b \<longrightarrow> current_size_bytes c' + sz \<le> max_size_bytes c')
           \<and> (\<not> b \<longrightarrow> cache c' = [] \<and> max_size_bytes c' < current_size_bytes c' + sz)"
  using pol I
proof (induction "length (cache c)" arbitrary: c rule: less_induct)
  case less
  show ?case
  proof (cases "max_size_bytes c < current_size_bytes c + sz")
    case False
    then have "evict_loop c sz = Some (Inr True, c)"
      by (subst evict_loop.simps) simp
    with False less.prems show ?thesis by auto
  next
    case over: True
    show ?thesis
    proof (cases "cache c = []")
      case True
      then have "evict_loop c sz = Some (Inr False, c)"
        using over by (subst evict_loop.simps) simp
      with over True less.prems show ?thesis by auto
    next
      case False
      from evict_one_known[OF less.prems(1) False] obtain k e where
        ke: "(k, e) \<in> set (cache c)" and ev: "evict_one c = (Inr (), evicted c k e)" by blast
      have shorter: "length (cache (evicted c k e)) < length (cache c)"
        using dict_del_shorter[OF ke] by (simp add: evicted_def)
      have pol': "known_policy (evicted c k e)"
        using less.prems(1) by (simp add: known_policy_def evicted_def)
      have I': "I (evicted c k e)"
        using step[OF less.prems(2,1) over ke] .
      have unfold: "evict_loop c sz = evict_loop (evicted c k e) sz"
        using over False ev by (subst evict_loop.simps) simp
      from less.hyps[OF shorter pol' I'] show ?thesis
        unfolding unfold .
    qed
  qed
qed

lemma evict_loop_diverges:
  assumes "\<not> known_policy c" "cache c \<noteq> []" "max_size_bytes c < current_size_bytes c + sz"
  shows "evict_loop c sz = None"
proof (rule ccontr)
  assume "evict_loop c sz \<noteq> None"
  then obtain r where r: "evict_loop c sz = Some r" by auto
  have "\<not> (\<not> known_policy c \<and> cache c \<noteq> [] \<and> max_size_bytes c < current_size_bytes c + sz)"
  proof (rule evict_loop.raw_induct
                [where P = "\<lambda>c sz r. \<not> (\<not> known_policy c \<and> cache c \<noteq> []
                                         \<and> max_size_bytes c < current_size_bytes c + sz)", OF _ r],
         goal_cases)
    case (1 f c' sz' r')
    show ?case
    proof
      assume bad: "\<not> known_policy c' \<and> cache c' \<noteq> [] \<and> max_size_bytes c' < current_size_bytes c' + sz'"
      then have "evict_one c' = (Inr (), c')"
        by (simp add: evict_one_def known_policy_def)
      with bad 1(2) have "f c' sz' = Some r'" by simp
      from 1(1)[OF this] bad show False by simp
    qed
  qed
  with assms show False by simp
qed

lemma stored_bytes_evicted:
  "distinct (map fst (cache c)) \<Longrightarrow> (k, e) \<in> set (cache c) \<Longrightarrow>
     stored_bytes (evicted c k e) = stored_bytes c - size_bytes e"
  by (simp add: stored_bytes_def evicted_def dict_del_sum)

lemma cache_inv_evicted:
  assumes "cache_inv c" "(k, e) \<in> set (cache c)"
  shows "cache_inv (evicted c k e)"
proof -
  have d: "distinct (map fst (cache c))" and nn: "0 \<le> size_bytes e"
    using assms by (auto simp: cache_inv_def)
  have "stored_bytes (evicted c k e) = stored_bytes c - size_bytes e"
    using d assms(2) by (rule stored_bytes_evicted)
  moreover have "set (cache (evicted c k e)) \<subseteq> set (cache c)"
    using dict_del_set by (simp add: evicted_def)
  moreover have "distinct (map fst (cache (evicted c k e)))"
    using d by (simp add: evicted_def dict_del_distinct)
  ultimately show ?thesis
    using assms(1) nn by (auto simp: cache_inv_def evicted_def)
qed

lemma evict_loop_unknown:
  assumes "\<not> known_policy c" "evict_loop c sz = Some r"
  shows "\<exists>b. r = (Inr b, c) \<and> (b \<longrightarrow> current_size_bytes c + sz \<le> max_size_bytes c)
              \<and> (\<not> b \<longrightarrow> cache c = [])"
proof (cases "max_size_bytes c < current_size_bytes c + sz \<and> cache c \<noteq> []")
  case True
  then have "evict_loop c sz = None"
    using assms(1) by (simp add: evict_loop_diverges)
  with assms(2) show ?thesis by simp
next
  case False
  then show ?thesis
    using assms(2) by (subst (asm) evict_loop.simps) (auto split: if_splits)
qed

lemma evict_loop_inv:
  assumes "cache_inv c" "evict_loop c sz = Some r"
  shows "\<exists>b c'. r = (Inr b, c') \<and> cache_inv c' \<and> max_size_bytes c' = max_size_bytes c
            \<and> eviction_policy c' = eviction_policy c
            \<and> (b \<longrightarrow> current_size_bytes c' + sz \<le> max_size_bytes c')
            \<and> (\<not> b \<longrightarrow> cache c' = [])"
proof (cases "known_policy c")
  case True
  let ?I = "\<lambda>c'. cache_inv c' \<and> max_size_bytes c' = max_size_bytes c \<and> eviction_policy c' = eviction_policy c"
  have "\<exists>b c'. evict_loop c sz = Some (Inr b, c') \<and> ?I c' \<and> known_policy c'
           \<and> (b \<longrightarrow> current_size_bytes c' + sz \<le> max_size_bytes c')
           \<and> (\<not> b \<longrightarrow> cache c' = [] \<and> max_size_bytes c' < current_size_bytes c' + sz)"
  proof (rule evict_loop_rule[where I = ?I, OF True])
    show "?I c" using assms(1) by simp
  next
    fix c' k e
    assume "?I c'" "(k, e) \<in> set (cache c')"
    then show "?I (evicted c' k e)"
      using cache_inv_evicted[of c' k e] by (simp add: evicted_def)
  qed
  with assms(2) show ?thesis by auto
next
  case False
  from evict_loop_unknown[OF False assms(2)] assms(1) show ?thesis by auto
qed

lemma size_nonneg: "0 \<le> element_size acts * nelement acts"
  by (simp add: element_size_def nelement_def)

lemma put_inv:
  assumes "cache_inv c" "put c key acts deps now = Some r"
  shows "\<exists>c'. r = (Inr (), c') \<and> cache_inv c' \<and> max_size_bytes c' = max_size_bytes c
            \<and> eviction_policy c' = eviction_policy c"
proof -
  let ?sz = "element_size acts * nelement acts"
  from assms(2) obtain r0 where r0: "evict_loop c ?sz = Some r0"
    by (auto simp: put_def Let_def split: option.splits)
  from evict_loop_inv[OF assms(1) r0] obtain b c' where
    r0': "r0 = (Inr b, c')" and inv: "cache_inv c'" and mx: "max_size_bytes c' = max_size_bytes c"
    and pol: "eviction_policy c' = eviction_policy c"
    and fits: "b \<longrightarrow> current_size_bytes c' + ?sz \<le> max_size_bytes c'" by blast
  show ?thesis
  proof (cases b)
    case False
    then have "r = (Inr (), c')" using assms(2) r0 r0' by (simp add: put_def Let_def)
    with inv mx pol show ?thesis by simp
  next
    case True
    let ?entry = "\<lparr>timestamp = now, activations = acts, dependencies = deps,
                        hit_count = 0, size_bytes = ?sz\<rparr>"
    let ?c'' = "c'\<lparr>cache := dict_set (cache c') key ?entry,
                               current_size_bytes := current_size_bytes c' + ?sz\<rparr>"
    have r: "r = (Inr (), ?c'')" using assms(2) r0 r0' True by (simp add: put_def Let_def)
    have d: "distinct (map fst (cache c'))" using inv by (simp add: cache_inv_def)
    have old: "0 \<le> (case map_of (cache c') key of None \<Rightarrow> 0 | Some w \<Rightarrow> size_bytes w)"
      using inv by (auto simp: cache_inv_def split: option.splits dest!: map_of_SomeD)
    have "stored_bytes ?c'' = stored_bytes c'
            - (case map_of (cache c') key of None \<Rightarrow> 0 | Some w \<Rightarrow> size_bytes w) + ?sz"
      using dict_set_sum[OF d, of size_bytes key ?entry] by (simp add: stored_bytes_def)
    then have st: "stored_bytes ?c'' \<le> current_size_bytes ?c''"
      using old inv by (simp add: cache_inv_def)
    have nn: "\<forall>p \<in> set (cache ?c''). 0 \<le> size_bytes (snd p)"
      using dict_set_set[of "cache c'" key ?entry] inv size_nonneg[of acts]
      by (auto simp: cache_inv_def)
    have "cache_inv ?c''"
      using st nn fits True inv dict_set_distinct[OF d] by (simp add: cache_inv_def)
    with r mx pol show ?thesis by simp
  qed
qed

lemma get_inv:
  assumes "cache_inv c"
  shows "cache_inv (snd (get c key now)) \<and> max_size_bytes (snd (get c key now)) = max_size_bytes c
          \<and> eviction_policy (snd (get c key now)) = eviction_policy c"
proof (cases "map_of (cache c) key")
  case None
  then show ?thesis using assms by (simp add: get_def cache_inv_def stored_bytes_def)
next
  case (Some entry)
  let ?e' = "entry\<lparr>hit_count := hit_count entry + 1, timestamp := now\<rparr>"
  have d: "distinct (map fst (cache c))" using assms by (simp add: cache_inv_def)
  have "sum_list (map (\<lambda>p. size_bytes (snd p)) (dict_set (cache c) key ?e'))
          = sum_list (map (\<lambda>p. size_bytes (snd p)) (cache c))"
    using dict_set_sum[OF d, of size_bytes key ?e'] Some by simp
  moreover have "\<forall>p \<in> set (dict_set (cache c) key ?e'). 0 \<le> size_bytes (snd p)"
  proof
    fix p assume "p \<in> set (dict_set (cache c) key ?e')"
    then have "p = (key, ?e') \<or> p \<in> set (cache c)"
      using dict_set_set[of "cache c" key ?e'] by blast
    moreover have "(key, entry) \<in> set (cache c)" using Some by (rule map_of_SomeD)
    ultimately show "0 \<le> size_bytes (snd p)"
      using assms by (auto simp: cache_inv_def)
  qed
  ultimately show ?thesis
    using Some assms dict_set_distinct[OF d]
    by (simp add: get_def cache_inv_def stored_bytes_def)
qed

lemma invalidate_inv:
  "cache_inv c \<Longrightarrow> cache_inv (invalidate c keys) \<and> max_size_bytes (invalidate c keys) = max_size_bytes c
      \<and> eviction_policy (invalidate c keys) = eviction_policy c"
proof (induction keys arbitrary: c)
  case Nil
  then show ?case by simp
next
  case (Cons key keys)
  show ?case
  proof (cases "map_of (cache c) key")
    case None
    then show ?thesis using Cons by simp
  next
    case (Some entry)
    let ?c' = "c\<lparr>current_size_bytes := current_size_bytes c - size_bytes entry,
                        cache := dict_del (cache c) key\<rparr>"
    have mem: "(key, entry) \<in> set (cache c)" using Some by (rule map_of_SomeD)
    have "cache_inv (evicted c key entry)" using Cons.prems mem by (rule cache_inv_evicted)
    then have "cache_inv ?c'" by (simp add: cache_inv_def evicted_def stored_bytes_def)
    from Cons.IH[OF this] Some show ?thesis by simp
  qed
qed

lemma clear_inv:
  "cache_inv c \<Longrightarrow> cache_inv (clear c)"
  by (simp add: cache_inv_def clear_def stored_bytes_def)

lemma apply_op_inv:
  assumes "cache_inv c" "apply_op c op = Some c'"
  shows "cache_inv c' \<and> max_size_bytes c' = max_size_bytes c \<and> eviction_policy c' = eviction_policy c"
proof (cases op)
  case (Put key acts deps now)
  with assms(2) obtain r where "put c key acts deps now = Some r" "c' = snd r" by auto
  with put_inv[OF assms(1) this(1)] show ?thesis by auto
next
  case (Get key now)
  with assms get_inv[of c key now] show ?thesis by auto
next
  case (Invalidate keys)
  with assms invalidate_inv[of c keys] show ?thesis by auto
next
  case Clear
  with assms clear_inv[of c] show ?thesis by (auto simp: clear_def)
qed

lemma run_ops_inv:
  "cache_inv c \<Longrightarrow> run_ops c ops = Some c' \<Longrightarrow> cache_inv c' \<and> max_size_bytes c' = max_size_bytes c"
proof (induction ops arbitrary: c)
  case Nil
  then show ?case by simp
next
  case (Cons op ops)
  from Cons.prems(2) obtain c1 where c1: "apply_op c op = Some c1" "run_ops c1 ops = Some c'"
    by (auto split: option.splits)
  from apply_op_inv[OF Cons.prems(1) c1(1)] Cons.IH[OF _ c1(2)] show ?case by simp
qed

lemma put_total:
  assumes "known_policy c"
  shows "\<exists>c'. put c key acts deps now = Some (Inr (), c') \<and> known_policy c'"
proof -
  let ?sz = "element_size acts * nelement acts"
  have "\<exists>b c'. evict_loop c ?sz = Some (Inr b, c') \<and> True \<and> known_policy c'
           \<and> (b \<longrightarrow> current_size_bytes c' + ?sz \<le> max_size_bytes c')
           \<and> (\<not> b \<longrightarrow> cache c' = [] \<and> max_size_bytes c' < current_size_bytes c' + ?sz)"
    by (rule evict_loop_rule[where I = "\<lambda>_. True", OF assms]) simp_all
  then obtain b c' where "evict_loop c ?sz = Some (Inr b, c')" "known_policy c'" by blast
  then show ?thesis
    by (cases b) (simp_all add: put_def Let_def known_policy_def)
qed

lemma known_policy_get: "known_policy (snd (get c key now)) = known_policy c"
  by (simp add: get_def known_policy_def split: option.splits)

lemma known_policy_invalidate: "known_policy (invalidate c keys) = known_policy c"
  by (induction keys arbitrary: c) (auto simp: known_policy_def split: option.splits)

lemma run_ops_total:
  "known_policy c \<Longrightarrow> \<exists>c'. run_ops c ops = Some c'"
proof (induction ops arbitrary: c)
  case Nil
  then show ?case by simp
next
  case (Cons op ops)
  have "\<exists>c1. apply_op c op = Some c1 \<and> known_policy c1"
  proof (cases op)
    case (Put key acts deps now)
    with put_total[OF Cons.prems, of key acts deps now] show ?thesis by auto
  next
    case (Get key now)
    with Cons.prems show ?thesis by (simp add: known_policy_get)
  next
    case (Invalidate keys)
    with Cons.prems show ?thesis by (simp add: known_policy_invalidate)
  next
    case Clear
    with Cons.prems show ?thesis by (simp add: clear_def known_policy_def)
  qed
  then obtain c1 where "apply_op c op = Some c1" "known_policy c1" by blast
  with Cons.IH[of c1] show ?case by simp
qed

lemma py_int_nonneg: "0 \<le> x \<Longrightarrow> 0 \<le> py_int x"
  by (simp add: py_int_def)

lemma cache_inv_init: "0 \<le> mb \<Longrightarrow> cache_inv (TemporalCache_init mb pol)"
  by (simp add: cache_inv_def TemporalCache_init_def stored_bytes_def py_int_nonneg)

text \<open>
  C6. For every sequence of \<open>put\<close>, \<open>get\<close>, \<open>invalidate\<close> and \<open>clear\<close> calls on a cache
  constructed with a capacity \<open>max_size_mb \<ge> 0\<close>, whenever the calls have all returned, the
  sum of \<open>size_bytes\<close> over the stored entries is at most \<open>max_size_bytes\<close> (which never
  changes). The statement covers every prefix of a sequence, hence the state after each
  operation. Under the policies \<open>lru\<close> and \<open>lfu\<close> every sequence does return.
\<close>

theorem capacity_invariant:
  "0 \<le> mb \<longrightarrow>
     (\<forall>c. run_ops (TemporalCache_init mb policy) ops = Some c \<longrightarrow>
          stored_bytes c \<le> max_size_bytes c
          \<and> max_size_bytes c = max_size_bytes (TemporalCache_init mb policy))
     \<and> (policy = ''lru'' \<or> policy = ''lfu'' \<longrightarrow>
          (\<exists>c. run_ops (TemporalCache_init mb policy) ops = Some c))"
proof (intro impI conjI allI)
  fix c
  assume mb: "0 \<le> mb" and run: "run_ops (TemporalCache_init mb policy) ops = Some c"
  from run_ops_inv[OF cache_inv_init[OF mb] run]
  show "stored_bytes c \<le> max_size_bytes c"
    and "max_size_bytes c = max_size_bytes (TemporalCache_init mb policy)"
    by (simp_all add: cache_inv_def)
next
  assume "policy = ''lru'' \<or> policy = ''lfu''"
  then have "known_policy (TemporalCache_init mb policy)"
    by (simp add: known_policy_def TemporalCache_init_def)
  then show "\<exists>c. run_ops (TemporalCache_init mb policy) ops = Some c"
    by (rule run_ops_total)
qed

theorem capacity_invariant_witness:
  "(0::rat) \<le> 1 / 1024
   \<and> run_ops (TemporalCache_init (1 / 1024) ''lru'')
         [Put ''frame_0'' (Tensor 1 100) [] 1, Put ''frame_1'' (Tensor 1 100) [''frame_0''] 2,
          Get ''frame_0'' 3, Put ''frame_2'' (Tensor 1 100) [''frame_1''] 4,
          Invalidate [''frame_0''], Put ''frame_2'' (Tensor 1 100) [''frame_1''] 5]
       = Some \<lparr>max_size_bytes = 1024, eviction_policy = ''lru'',
                cache = [(''frame_2'', \<lparr>timestamp = 5, activations = Tensor 1 100,
                                         dependencies = [''frame_1''], hit_count = 0,
                                         size_bytes = 400\<rparr>)],
                current_size_bytes = 800, hits = 1, misses = 0, evictions = 1\<rparr>
   \<and> stored_bytes \<lparr>max_size_bytes = 1024, eviction_policy = ''lru'',
                cache = [(''frame_2'', \<lparr>timestamp = 5, activations = Tensor 1 100,
                                         dependencies = [''frame_1''], hit_count = 0,
                                         size_bytes = 400\<rparr>)],
                current_size_bytes = 800, hits = 1, misses = 0, evictions = 1\<rparr> \<le> 1024"
proof -
  have run: "run_ops (TemporalCache_init (1 / 1024) ''lru'')
         [Put ''frame_0'' (Tensor 1 100) [] 1, Put ''frame_1'' (Tensor 1 100) [''frame_0''] 2,
          Get ''frame_0'' 3, Put ''frame_2'' (Tensor 1 100) [''frame_1''] 4,
          Invalidate [''frame_0''], Put ''frame_2'' (Tensor 1 100) [''frame_1''] 5]
       = Some \<lparr>max_size_bytes = 1024, eviction_policy = ''lru'',
                cache = [(''frame_2'', \<lparr>timestamp = 5, activations = Tensor 1 100,
                                         dependencies = [''frame_1''], hit_count = 0,
                                         size_bytes = 400\<rparr>)],
                current_size_bytes = 800, hits = 1, misses = 0, evictions = 1\<rparr>"
    by code_simp
  show ?thesis
    using capacity_invariant[of "1 / 1024" "''lru''"
         "[Put ''frame_0'' (Tensor 1 100) [] 1, Put ''frame_1'' (Tensor 1 100) [''frame_0''] 2,
          Get ''frame_0'' 3, Put ''frame_2'' (Tensor 1 100) [''frame_1''] 4,
          Invalidate [''frame_0''], Put ''frame_2'' (Tensor 1 100) [''frame_1''] 5]"] run
    by simp
qed

lemma put_evicts_first:
  assumes "cache c \<noteq> []" "max_size_bytes c < current_size_bytes c + element_size acts * nelement acts"
    "evict_one c = (Inr (), c')"
  shows "put c key acts deps now = put c' key acts deps now"
proof -
  have "evict_loop c (element_size acts * nelement acts) = evict_loop c' (element_size acts * nelement acts)"
    using assms by (subst evict_loop.simps) simp
  then show ?thesis by (simp add: put_def)
qed

lemma put_diverges:
  assumes "\<not> known_policy c" "cache c \<noteq> []"
    "max_size_bytes c < current_size_bytes c + element_size acts * nelement acts"
  shows "put c key acts deps now = None"
  using evict_loop_diverges[OF assms] by (simp add: put_def)

text \<open>
  C10. For a cache whose policy is \<open>lru\<close> or \<open>lfu\<close>, every \<open>put\<close> returns; an iteration of
  the eviction loop on a non-empty cache removes one entry (the cache gets strictly
  shorter and \<open>current_size_bytes\<close> goes down by the size of the removed entry), and on an
  empty cache the loop returns. For any other policy, \<open>_evict_one\<close> leaves the cache as it
  is, and a \<open>put\<close> that needs an eviction on a non-empty cache never returns.
\<close>

theorem put_terminates_iff_known_policy:
  "(known_policy c \<longrightarrow> (\<exists>c'. put c key acts deps now = Some (Inr (), c')))
   \<and> (known_policy c \<and> cache c \<noteq> [] \<longrightarrow>
        (\<exists>k e. (k, e) \<in> set (cache c) \<and> evict_one c = (Inr (), evicted c k e)
           \<and> length (cache (evicted c k e)) < length (cache c)
           \<and> current_size_bytes (evicted c k e) = current_size_bytes c - size_bytes e
           \<and> (0 \<le> size_bytes e \<longrightarrow> current_size_bytes (evicted c k e) \<le> current_size_bytes c)
           \<and> (0 < size_bytes e \<longrightarrow> current_size_bytes (evicted c k e) < current_size_bytes c)))
   \<and> (max_size_bytes c < current_size_bytes c + element_size acts * nelement acts \<and> cache c = [] \<longrightarrow>
        put c key acts deps now = Some (Inr (), c))
   \<and> (\<not> known_policy c \<and> cache c \<noteq> []
        \<and> max_size_bytes c < current_size_bytes c + element_size acts * nelement acts \<longrightarrow>
        evict_one c = (Inr (), c) \<and> put c key acts deps now = None)"
proof (intro conjI impI)
  assume "known_policy c"
  from put_total[OF this, of key acts deps now]
  show "\<exists>c'. put c key acts deps now = Some (Inr (), c')" by blast
next
  assume a: "known_policy c \<and> cache c \<noteq> []"
  then obtain k e where ke: "(k, e) \<in> set (cache c)" "evict_one c = (Inr (), evicted c k e)"
    using evict_one_known[of c] by blast
  have "length (cache (evicted c k e)) < length (cache c)"
    using dict_del_shorter[OF ke(1)] by (simp add: evicted_def)
  moreover have "current_size_bytes (evicted c k e) = current_size_bytes c - size_bytes e"
    by (simp add: evicted_def)
  ultimately show "\<exists>k e. (k, e) \<in> set (cache c) \<and> evict_one c = (Inr (), evicted c k e)
           \<and> length (cache (evicted c k e)) < length (cache c)
           \<and> current_size_bytes (evicted c k e) = current_size_bytes c - size_bytes e
           \<and> (0 \<le> size_bytes e \<longrightarrow> current_size_bytes (evicted c k e) \<le> current_size_bytes c)
           \<and> (0 < size_bytes e \<longrightarrow> current_size_bytes (evicted c k e) < current_size_bytes c)"
    using ke by (intro exI[of _ k] exI[of _ e]) simp
next
  assume a: "max_size_bytes c < current_size_bytes c + element_size acts * nelement acts \<and> cache c = []"
  then have "evict_loop c (element_size acts * nelement acts) = Some (Inr False, c)"
    by (subst evict_loop.simps) simp
  then show "put c key acts deps now = Some (Inr (), c)"
    by (simp add: put_def)
next
  assume a: "\<not> known_policy c \<and> cache c \<noteq> []
        \<and> max_size_bytes c < current_size_bytes c + element_size acts * nelement acts"
  then show "evict_one c = (Inr (), c)"
    by (simp add: evict_one_def known_policy_def)
  from a show "put c key acts deps now = None"
    by (simp add: put_diverges)
qed

theorem put_terminates_iff_known_policy_witness:
  "known_policy (demo_cache ''lru'') \<and> cache (demo_cache ''lru'') \<noteq> []
   \<and> (\<exists>c'. put (demo_cache ''lru'') ''frame_2'' (Tensor 1 100) [''frame_1''] 3 = Some (Inr (), c'))
   \<and> (\<exists>k e. (k, e) \<in> set (cache (demo_cache ''lru''))
          \<and> length (cache (evicted (demo_cache ''lru'') k e)) < 2
          \<and> 0 < size_bytes e
          \<and> current_size_bytes (evicted (demo_cache ''lru'') k e) < 800)
   \<and> \<not> known_policy (demo_cache ''fifo'') \<and> cache (demo_cache ''fifo'') \<noteq> []
   \<and> max_size_bytes (demo_cache ''fifo'')
        < current_size_bytes (demo_cache ''fifo'') + element_size (Tensor 1 100) * nelement (Tensor 1 100)
   \<and> put (demo_cache ''fifo'') ''frame_2'' (Tensor 1 100) [''frame_1''] 3 = None
   \<and> max_size_bytes (clear (demo_cache ''fifo''))
        < current_size_bytes (clear (demo_cache ''fifo'')) + element_size (Tensor 1 300) * nelement (Tensor 1 300)
   \<and> put (clear (demo_cache ''fifo'')) ''frame_2'' (Tensor 1 300) [] 3 = Some (Inr (), clear (demo_cache ''fifo''))"
proof -
  have k: "known_policy (demo_cache ''lru'')" "\<not> known_policy (demo_cache ''fifo'')"
    by (simp_all add: known_policy_def demo_cache_def)
  have ne: "cache (demo_cache ''lru'') \<noteq> []" "cache (demo_cache ''fifo'') \<noteq> []"
    by (simp_all add: demo_cache_def)
  have over: "max_size_bytes (demo_cache ''fifo'')
        < current_size_bytes (demo_cache ''fifo'') + element_size (Tensor 1 100) * nelement (Tensor 1 100)"
    by (simp add: demo_cache_def element_size_def nelement_def)
  have over2: "max_size_bytes (clear (demo_cache ''fifo''))
        < current_size_bytes (clear (demo_cache ''fifo'')) + element_size (Tensor 1 300) * nelement (Tensor 1 300)"
    "cache (clear (demo_cache ''fifo'')) = []"
    by (simp_all add: demo_cache_def clear_def element_size_def nelement_def)
  have sz: "\<forall>p \<in> set (cache (demo_cache ''lru'')). size_bytes (snd p) = 400"
    "current_size_bytes (demo_cache ''lru'') = 800" "length (cache (demo_cache ''lru'')) = 2"
    by (simp_all add: demo_cache_def)
  from put_terminates_iff_known_policy[of "demo_cache ''lru''" "''frame_2''" "Tensor 1 100" "[''frame_1'']" 3] k ne
  have 1: "\<exists>c'. put (demo_cache ''lru'') ''frame_2'' (Tensor 1 100) [''frame_1''] 3 = Some (Inr (), c')"
    and 2: "\<exists>k e. (k, e) \<in> set (cache (demo_cache ''lru''))
          \<and> length (cache (evicted (demo_cache ''lru'') k e)) < 2
          \<and> 0 < size_bytes e
          \<and> current_size_bytes (evicted (demo_cache ''lru'') k e) < 800"
    using sz by fastforce+
  from put_terminates_iff_known_policy[of "demo_cache ''fifo''" "''frame_2''" "Tensor 1 100" "[''frame_1'']" 3] k ne over
  have 3: "put (demo_cache ''fifo'') ''frame_2'' (Tensor 1 100) [''frame_1''] 3 = None"
    by simp
  from put_terminates_iff_known_policy[of "clear (demo_cache ''fifo'')" "''frame_2''" "Tensor 1 300" "[]" 3] over2
  have 4: "put (clear (demo_cache ''fifo'')) ''frame_2'' (Tensor 1 300) [] 3 = Some (Inr (), clear (demo_cache ''fifo''))"
    by simp
  show ?thesis using k ne over over2 1 2 3 4 by simp
qed

lemma lru_key_evict_one:
  assumes "eviction_policy c = ''lru''" "cache c \<noteq> []"
  shows "\<exists>k e. (k, e) \<in> set (cache c) \<and> lru_key c = Some k
           \<and> (\<forall>p \<in> set (cache c). timestamp e \<le> timestamp (snd p))
           \<and> evict_one c = (Inr (), evicted c k e)"
proof -
  from assms(2) obtain m where m: "py_min_by (\<lambda>p. timestamp (snd p)) (cache c) = Some m"
    using py_min_by_Some by blast
  obtain k e where ke: "m = (k, e)" by (cases m)
  have "(k, e) \<in> set (cache c)" using py_min_by_in[OF m] ke by simp
  moreover have "\<forall>p \<in> set (cache c). timestamp e \<le> timestamp (snd p)"
    using py_min_by_le[OF m] ke by auto
  moreover have "evict_one c = (Inr (), evicted c k e)"
    using assms(1) m ke by (simp add: evict_one_def evicted_def)
  moreover have "lru_key c = Some k" using m ke by (simp add: lru_key_def)
  ultimately show ?thesis by blast
qed

lemma get_hit:
  assumes "map_of (cache c) key = Some entry"
  shows "get c key now = (Some (activations entry),
           c\<lparr>hits := hits c + 1,
             cache := dict_set (cache c) key (entry\<lparr>hit_count := hit_count entry + 1, timestamp := now\<rparr>)\<rparr>)"
  using assms by (simp add: get_def)

lemma evict_loop_subset:
  assumes "evict_loop c sz = Some (r, c')"
  shows "set (cache c') \<subseteq> set (cache c)"
proof (cases "known_policy c")
  case True
  let ?I = "\<lambda>c''::TemporalCache. set (cache c'') \<subseteq> set (cache c)"
  have "\<exists>b c''. evict_loop c sz = Some (Inr b, c'') \<and> ?I c'' \<and> known_policy c''
           \<and> (b \<longrightarrow> current_size_bytes c'' + sz \<le> max_size_bytes c'')
           \<and> (\<not> b \<longrightarrow> cache c'' = [] \<and> max_size_bytes c'' < current_size_bytes c'' + sz)"
  proof (rule evict_loop_rule[where I = ?I, OF True])
    show "?I c" by simp
  next
    fix c'' :: TemporalCache and k e
    assume "?I c''"
    then show "?I (evicted c'' k e)"
      using dict_del_set[of "cache c''" k] by (auto simp: evicted_def)
  qed
  with assms show ?thesis by auto
next
  case False
  from evict_loop_unknown[OF False assms] show ?thesis by auto
qed

lemma put_timestamps:
  assumes "\<forall>p \<in> set (cache c). timestamp (snd p) \<le> T" "now \<le> T"
    "put c key acts deps now = Some (r, c')"
  shows "\<forall>p \<in> set (cache c'). timestamp (snd p) \<le> T"
proof -
  let ?sz = "element_size acts * nelement acts"
  from assms(3) obtain r0 c0 where r0: "evict_loop c ?sz = Some (r0, c0)"
    by (auto simp: put_def Let_def split: option.splits)
  have sub: "set (cache c0) \<subseteq> set (cache c)" using r0 by (rule evict_loop_subset)
  let ?entry = "\<lparr>timestamp = now, activations = acts, dependencies = deps,
                        hit_count = 0, size_bytes = ?sz\<rparr>"
  have "c' = c0 \<or> c' = c0\<lparr>cache := dict_set (cache c0) key ?entry,
                               current_size_bytes := current_size_bytes c0 + ?sz\<rparr>"
    using assms(3) r0 by (auto simp: put_def Let_def split: sum.splits bool.splits)
  then have "set (cache c') \<subseteq> insert (key, ?entry) (set (cache c0))"
    using dict_set_set[of "cache c0" key ?entry] by auto
  then have "\<forall>p \<in> set (cache c'). p = (key, ?entry) \<or> p \<in> set (cache c)"
    using sub by blast
  then show ?thesis using assms(1,2) by fastforce
qed

lemma get_timestamps:
  assumes "\<forall>p \<in> set (cache c). timestamp (snd p) \<le> T" "now \<le> T"
  shows "\<forall>p \<in> set (cache (snd (get c key now))). timestamp (snd p) \<le> T"
proof (cases "map_of (cache c) key")
  case None
  then show ?thesis using assms by (simp add: get_def)
next
  case (Some entry)
  let ?e' = "entry\<lparr>hit_count := hit_count entry + 1, timestamp := now\<rparr>"
  have "set (cache (snd (get c key now))) \<subseteq> insert (key, ?e') (set (cache c))"
    using Some dict_set_set[of "cache c" key ?e'] by (simp add: get_def)
  then have "\<forall>p \<in> set (cache (snd (get c key now))). p = (key, ?e') \<or> p \<in> set (cache c)"
    by blast
  then show ?thesis using assms by fastforce
qed

lemma invalidate_subset: "set (cache (invalidate c keys)) \<subseteq> set (cache c)"
proof (induction keys arbitrary: c)
  case Nil
  then show ?case by simp
next
  case (Cons key keys)
  show ?case
  proof (cases "map_of (cache c) key")
    case None
    then show ?thesis using Cons by simp
  next
    case (Some entry)
    let ?c' = "c\<lparr>current_size_bytes := current_size_bytes c - size_bytes entry,
                        cache := dict_del (cache c) key\<rparr>"
    have "set (cache (invalidate ?c' keys)) \<subseteq> set (cache ?c')" by (rule Cons.IH)
    then show ?thesis using Some dict_del_set[of "cache c" key] by auto
  qed
qed

lemma run_ops_timestamps:
  "\<forall>p \<in> set (cache c). timestamp (snd p) \<le> T \<Longrightarrow> \<forall>t \<in> set (op_times ops). t \<le> T \<Longrightarrow>
     run_ops c ops = Some c' \<Longrightarrow> \<forall>p \<in> set (cache c'). timestamp (snd p) \<le> T"
proof (induction ops arbitrary: c)
  case Nil
  then show ?case by simp
next
  case (Cons op ops)
  from Cons.prems(3) obtain c1 where c1: "apply_op c op = Some c1" "run_ops c1 ops = Some c'"
    by (auto split: option.splits)
  have t: "\<forall>t \<in> set (op_times ops). t \<le> T"
    using Cons.prems(2) by (cases op) auto
  have "\<forall>p \<in> set (cache c1). timestamp (snd p) \<le> T"
  proof (cases op)
    case (Put key acts deps now)
    with c1(1) obtain r where "put c key acts deps now = Some (r, c1)" by auto
    moreover have "now \<le> T" using Cons.prems(2) Put by simp
    ultimately show ?thesis using put_timestamps[OF Cons.prems(1)] by blast
  next
    case (Get key now)
    then have "now \<le> T" using Cons.prems(2) by simp
    from get_timestamps[OF Cons.prems(1) this, of key] c1(1) Get show ?thesis by simp
  next
    case (Invalidate keys)
    with c1(1) Cons.prems(1) invalidate_subset[of c keys] show ?thesis by auto
  next
    case Clear
    with c1(1) show ?thesis by (auto simp: clear_def)
  qed
  from Cons.IH[OF this t c1(2)] show ?case .
qed

lemma foldl_min_first:
  "foldl (\<lambda>best y. if f y < f best then y else best) x xs = m \<Longrightarrow>
     (m = x \<and> (\<forall>y \<in> set xs. f x \<le> f y))
     \<or> (\<exists>before after. xs = before @ m # after \<and> f m < f x
           \<and> (\<forall>y \<in> set before. f m < f y) \<and> (\<forall>y \<in> set after. f m \<le> f y))"
  for f :: "'a \<Rightarrow> 'o::linorder"
proof (induction xs arbitrary: x)
  case Nil
  then show ?case by simp
next
  case (Cons y ys)
  show ?case
  proof (cases "f y < f x")
    case True
    with Cons.prems have "foldl (\<lambda>best y. if f y < f best then y else best) y ys = m" by simp
    from Cons.IH[OF this] show ?thesis
    proof
      assume "m = y \<and> (\<forall>z \<in> set ys. f y \<le> f z)"
      then have "y # ys = [] @ m # ys \<and> f m < f x \<and> (\<forall>z \<in> set []. f m < f z)
                   \<and> (\<forall>z \<in> set ys. f m \<le> f z)"
        using True by simp
      then show ?thesis by blast
    next
      assume "\<exists>before after. ys = before @ m # after \<and> f m < f y
           \<and> (\<forall>z \<in> set before. f m < f z) \<and> (\<forall>z \<in> set after. f m \<le> f z)"
      then obtain b a where ba: "ys = b @ m # a" "f m < f y"
        "\<forall>z \<in> set b. f m < f z" "\<forall>z \<in> set a. f m \<le> f z" by blast
      then have "y # ys = (y # b) @ m # a \<and> f m < f x \<and> (\<forall>z \<in> set (y # b). f m < f z)
                   \<and> (\<forall>z \<in> set a. f m \<le> f z)"
        using True by auto
      then show ?thesis by blast
    qed
  next
    case False
    with Cons.prems have "foldl (\<lambda>best y. if f y < f best then y else best) x ys = m" by simp
    from Cons.IH[OF this] show ?thesis
    proof
      assume "m = x \<and> (\<forall>z \<in> set ys. f x \<le> f z)"
      then show ?thesis using False by auto
    next
      assume "\<exists>before after. ys = before @ m # after \<and> f m < f x
           \<and> (\<forall>z \<in> set before. f m < f z) \<and> (\<forall>z \<in> set after. f m \<le> f z)"
      then obtain b a where ba: "ys = b @ m # a" "f m < f x"
        "\<forall>z \<in> set b. f m < f z" "\<forall>z \<in> set a. f m \<le> f z" by blast
      then have "y # ys = (y # b) @ m # a \<and> f m < f x \<and> (\<forall>z \<in> set (y # b). f m < f z)
                   \<and> (\<forall>z \<in> set a. f m \<le> f z)"
        using False by auto
      then show ?thesis by blast
    qed
  qed
qed

lemma py_min_by_first:
  fixes f :: "'a \<Rightarrow> 'o::linorder"
  assumes "py_min_by f xs = Some m"
  shows "\<exists>before after. xs = before @ m # after
           \<and> (\<forall>y \<in> set before. f m < f y) \<and> (\<forall>y \<in> set after. f m \<le> f y)"
proof (cases xs)
  case Nil
  with assms show ?thesis by simp
next
  case (Cons x ys)
  with assms have "foldl (\<lambda>best y. if f y < f best then y else best) x ys = m" by simp
  from foldl_min_first[OF this] show ?thesis
  proof
    assume "m = x \<and> (\<forall>y \<in> set ys. f x \<le> f y)"
    then have "xs = [] @ m # ys \<and> (\<forall>y \<in> set []. f m < f y) \<and> (\<forall>y \<in> set ys. f m \<le> f y)"
      using Cons by simp
    then show ?thesis by blast
  next
    assume "\<exists>before after. ys = before @ m # after \<and> f m < f x
           \<and> (\<forall>z \<in> set before. f m < f z) \<and> (\<forall>z \<in> set after. f m \<le> f z)"
    then obtain b a where ba: "ys = b @ m # a" "f m < f x"
      "\<forall>z \<in> set b. f m < f z" "\<forall>z \<in> set a. f m \<le> f z" by blast
    then have "xs = (x # b) @ m # a \<and> (\<forall>z \<in> set (x # b). f m < f z) \<and> (\<forall>z \<in> set a. f m \<le> f z)"
      using Cons by auto
    then show ?thesis by blast
  qed
qed

lemma py_min_by_hd:
  fixes f :: "'a \<Rightarrow> 'o::linorder"
  shows "\<forall>y \<in> set xs. f x \<le> f y \<Longrightarrow> py_min_by f (x # xs) = Some x"
proof -
  have "\<forall>y \<in> set xs. f x \<le> f y \<Longrightarrow> foldl (\<lambda>best y. if f y < f best then y else best) x xs = x"
    by (induction xs) auto
  then show "\<forall>y \<in> set xs. f x \<le> f y \<Longrightarrow> py_min_by f (x # xs) = Some x" by simp
qed

lemma lru_key_first:
  assumes "eviction_policy c = ''lru''" "cache c \<noteq> []"
  shows "\<exists>k e before after. cache c = before @ (k, e) # after
           \<and> (\<forall>p \<in> set before. timestamp e < timestamp (snd p))
           \<and> (\<forall>p \<in> set after. timestamp e \<le> timestamp (snd p))
           \<and> lru_key c = Some k
           \<and> evict_one c = (Inr (), evicted c k e)"
proof -
  from assms(2) obtain m where m: "py_min_by (\<lambda>p. timestamp (snd p)) (cache c) = Some m"
    using py_min_by_Some by blast
  obtain k e where ke: "m = (k, e)" by (cases m)
  from py_min_by_first[OF m] ke obtain before after where
    "cache c = before @ (k, e) # after" "\<forall>p \<in> set before. timestamp e < timestamp (snd p)"
    "\<forall>p \<in> set after. timestamp e \<le> timestamp (snd p)"
    by auto
  moreover have "evict_one c = (Inr (), evicted c k e)"
    using assms(1) m ke by (simp add: evict_one_def evicted_def)
  moreover have "lru_key c = Some k" using m ke by (simp add: lru_key_def)
  ultimately show ?thesis by blast
qed

lemma lru_key_not_strictly_newer:
  assumes "distinct (map fst (cache c))" "map_of (cache c) key = Some entry"
    "p \<in> set (cache c)" "timestamp (snd p) < timestamp entry"
  shows "lru_key c \<noteq> Some key"
proof
  assume "lru_key c = Some key"
  then obtain m where pm: "py_min_by (\<lambda>p. timestamp (snd p)) (cache c) = Some m" "fst m = key"
    by (auto simp: lru_key_def)
  have "m \<in> set (cache c)" using pm(1) by (rule py_min_by_in)
  then have "map_of (cache c) (fst m) = Some (snd m)"
    using map_of_is_SomeI[OF assms(1), of "fst m" "snd m"] by simp
  then have "snd m = entry" using assms(2) pm(2) by simp
  moreover have "timestamp (snd m) \<le> timestamp (snd p)"
    using py_min_by_le[OF pm(1)] assms(3) by blast
  ultimately show False using assms(4) by simp
qed

lemma lru_key_tie:
  assumes "distinct (map fst (cache c))" "map_of (cache c) key = Some entry"
    "\<forall>p \<in> set (cache c). timestamp (snd p) \<le> timestamp entry"
  shows "lru_key c = Some key
           \<longleftrightarrow> fst (hd (cache c)) = key \<and> (\<forall>p \<in> set (cache c). timestamp (snd p) = timestamp entry)"
proof
  assume l: "lru_key c = Some key"
  then obtain m where pm: "py_min_by (\<lambda>p. timestamp (snd p)) (cache c) = Some m" "fst m = key"
    by (auto simp: lru_key_def)
  have "m \<in> set (cache c)" using pm(1) by (rule py_min_by_in)
  then have "map_of (cache c) (fst m) = Some (snd m)"
    using map_of_is_SomeI[OF assms(1), of "fst m" "snd m"] by simp
  then have sm: "snd m = entry" using assms(2) pm(2) by simp
  from py_min_by_first[OF pm(1)] obtain before after where
    ba: "cache c = before @ m # after" "\<forall>p \<in> set before. timestamp (snd m) < timestamp (snd p)"
    "\<forall>p \<in> set after. timestamp (snd m) \<le> timestamp (snd p)"
    by auto
  have "before = []"
  proof (cases before)
    case Nil
    then show ?thesis .
  next
    case (Cons q qs)
    then have "q \<in> set (cache c)" "timestamp entry < timestamp (snd q)"
      using ba(1,2) sm by auto
    with assms(3) show ?thesis by fastforce
  qed
  then have hd: "fst (hd (cache c)) = key" using ba(1) pm(2) by simp
  have "timestamp (snd p) = timestamp entry" if "p \<in> set (cache c)" for p
  proof -
    have "timestamp (snd m) \<le> timestamp (snd p)" using py_min_by_le[OF pm(1)] that by blast
    moreover have "timestamp (snd p) \<le> timestamp entry" using assms(3) that by blast
    ultimately show ?thesis using sm by simp
  qed
  with hd show "fst (hd (cache c)) = key \<and> (\<forall>p \<in> set (cache c). timestamp (snd p) = timestamp entry)"
    by blast
next
  assume r: "fst (hd (cache c)) = key \<and> (\<forall>p \<in> set (cache c). timestamp (snd p) = timestamp entry)"
  from assms(2) obtain x xs where c: "cache c = x # xs" by (cases "cache c") auto
  have "\<forall>y \<in> set xs. timestamp (snd x) \<le> timestamp (snd y)" using r c by simp
  then have "py_min_by (\<lambda>p. timestamp (snd p)) (x # xs) = Some x" by (rule py_min_by_hd)
  then show "lru_key c = Some key" using r c by (simp add: lru_key_def)
qed

text \<open>
  C8. Under the LRU policy, a \<open>put\<close> that must evict removes an entry whose timestamp is
  the smallest among the stored entries, the first such entry in the order of the dict,
  and goes on as the same \<open>put\<close> on the cache without it. A \<open>get\<close> on a present key sets the
  entry's timestamp to the time read; when the clock has not gone back (every stored
  timestamp is at most the time read), that is a largest timestamp in the cache, not
  always the only one. The entry is never the next one evicted while an entry with a
  strictly smaller timestamp is stored; among entries of equal timestamp the order of the
  dict decides, so the entry just read is the next one evicted exactly when it is the
  first entry of the dict and every other entry carries the same timestamp. The condition
  on the clock holds in every cache reached from a new one by calls whose clock readings
  are at most the time the \<open>get\<close> reads.
\<close>

theorem lru_eviction_and_recency:
  "(eviction_policy c = ''lru'' \<and> cache c \<noteq> []
      \<and> max_size_bytes c < current_size_bytes c + element_size acts * nelement acts \<longrightarrow>
      (\<exists>k e before after. cache c = before @ (k, e) # after
         \<and> (\<forall>p \<in> set before. timestamp e < timestamp (snd p))
         \<and> (\<forall>p \<in> set after. timestamp e \<le> timestamp (snd p))
         \<and> lru_key c = Some k
         \<and> evict_one c = (Inr (), evicted c k e)
         \<and> put c key' acts deps now' = put (evicted c k e) key' acts deps now'))
   \<and> (distinct (map fst (cache c)) \<and> map_of (cache c) key = Some entry
      \<and> (\<exists>p \<in> set (cache c). timestamp (snd p) < timestamp entry) \<longrightarrow>
        lru_key c \<noteq> Some key)
   \<and> (distinct (map fst (cache c)) \<and> map_of (cache c) key = Some entry
      \<and> (\<forall>p \<in> set (cache c). timestamp (snd p) \<le> now) \<longrightarrow>
        fst (get c key now) = Some (activations entry)
        \<and> map_of (cache (snd (get c key now))) key
             = Some (entry\<lparr>hit_count := hit_count entry + 1, timestamp := now\<rparr>)
        \<and> map fst (cache (snd (get c key now))) = map fst (cache c)
        \<and> (\<forall>p \<in> set (cache (snd (get c key now))). timestamp (snd p) \<le> now)
        \<and> ((\<exists>p \<in> set (cache (snd (get c key now))). timestamp (snd p) < now) \<longrightarrow>
              lru_key (snd (get c key now)) \<noteq> Some key)
        \<and> (lru_key (snd (get c key now)) = Some key \<longleftrightarrow>
              fst (hd (cache c)) = key
              \<and> (\<forall>p \<in> set (cache (snd (get c key now))). timestamp (snd p) = now)))
   \<and> (run_ops (TemporalCache_init mb policy) ops = Some c
      \<and> (\<forall>t \<in> set (op_times ops). t \<le> now) \<longrightarrow>
        (\<forall>p \<in> set (cache c). timestamp (snd p) \<le> now))"
proof (intro conjI impI)
  assume a: "eviction_policy c = ''lru'' \<and> cache c \<noteq> []
      \<and> max_size_bytes c < current_size_bytes c + element_size acts * nelement acts"
  then obtain k e before after where ke: "cache c = before @ (k, e) # after"
      "\<forall>p \<in> set before. timestamp e < timestamp (snd p)"
      "\<forall>p \<in> set after. timestamp e \<le> timestamp (snd p)"
      "lru_key c = Some k"
      "evict_one c = (Inr (), evicted c k e)"
    using lru_key_first[of c] by blast
  have "put c key' acts deps now' = put (evicted c k e) key' acts deps now'"
    using a ke(5) by (intro put_evicts_first) simp_all
  with ke show "\<exists>k e before after. cache c = before @ (k, e) # after
         \<and> (\<forall>p \<in> set before. timestamp e < timestamp (snd p))
         \<and> (\<forall>p \<in> set after. timestamp e \<le> timestamp (snd p))
         \<and> lru_key c = Some k
         \<and> evict_one c = (Inr (), evicted c k e)
         \<and> put c key' acts deps now' = put (evicted c k e) key' acts deps now'"
    by blast
next
  assume "distinct (map fst (cache c)) \<and> map_of (cache c) key = Some entry
      \<and> (\<exists>p \<in> set (cache c). timestamp (snd p) < timestamp entry)"
  then show "lru_key c \<noteq> Some key"
    using lru_key_not_strictly_newer[of c key entry] by blast
next
  assume a: "distinct (map fst (cache c)) \<and> map_of (cache c) key = Some entry
      \<and> (\<forall>p \<in> set (cache c). timestamp (snd p) \<le> now)"
  let ?e' = "entry\<lparr>hit_count := hit_count entry + 1, timestamp := now\<rparr>"
  let ?c' = "snd (get c key now)"
  have g: "get c key now = (Some (activations entry),
           c\<lparr>hits := hits c + 1, cache := dict_set (cache c) key ?e'\<rparr>)"
    using a by (simp add: get_hit)
  have cache': "cache ?c' = dict_set (cache c) key ?e'" by (simp add: g)
  show "fst (get c key now) = Some (activations entry)" by (simp add: g)
  show m: "map_of (cache ?c') key = Some ?e'"
    by (simp add: cache' dict_set_map_of)
  have "map_of d k = Some v \<Longrightarrow> map fst (dict_set d k v') = map fst d"
    for d :: cache_dict and k v v'
    by (induction d) auto
  with a show keys: "map fst (cache ?c') = map fst (cache c)" by (simp add: cache')
  show le: "\<forall>p \<in> set (cache ?c'). timestamp (snd p) \<le> now"
  proof
    fix p assume "p \<in> set (cache ?c')"
    then have "p = (key, ?e') \<or> p \<in> set (cache c)"
      using dict_set_set[of "cache c" key ?e'] cache' by auto
    then show "timestamp (snd p) \<le> now" using a by auto
  qed
  have d': "distinct (map fst (cache ?c'))"
    using a by (simp add: cache' dict_set_distinct)
  have le': "\<forall>p \<in> set (cache ?c'). timestamp (snd p) \<le> timestamp ?e'" using le by simp
  show "lru_key ?c' \<noteq> Some key" if ex: "\<exists>p \<in> set (cache ?c'). timestamp (snd p) < now"
    using lru_key_not_strictly_newer[OF d' m] ex by auto
  have ne: "cache c \<noteq> []" using a by auto
  have "fst (hd (cache ?c')) = fst (hd (cache c))"
    using keys ne by (metis hd_map map_is_Nil_conv)
  with lru_key_tie[OF d' m le']
  show "lru_key ?c' = Some key \<longleftrightarrow>
              fst (hd (cache c)) = key \<and> (\<forall>p \<in> set (cache ?c'). timestamp (snd p) = now)"
    by simp
next
  assume "run_ops (TemporalCache_init mb policy) ops = Some c
      \<and> (\<forall>t \<in> set (op_times ops). t \<le> now)"
  then show "\<forall>p \<in> set (cache c). timestamp (snd p) \<le> now"
    using run_ops_timestamps[of "TemporalCache_init mb policy" now ops c]
    by (simp add: TemporalCache_init_def)
qed

theorem lru_eviction_and_recency_witness:
  "eviction_policy (demo_cache ''lru'') = ''lru'' \<and> cache (demo_cache ''lru'') \<noteq> []
   \<and> max_size_bytes (demo_cache ''lru'')
        < current_size_bytes (demo_cache ''lru'') + element_size (Tensor 1 100) * nelement (Tensor 1 100)
   \<and> lru_key (demo_cache ''lru'') = Some ''frame_0''
   \<and> map_option (\<lambda>r. map fst (cache (snd r)))
        (put (demo_cache ''lru'') ''frame_2'' (Tensor 1 100) [''frame_1''] 3)
       = Some [''frame_1'', ''frame_2'']
   \<and> distinct (map fst (cache (demo_cache ''lru'')))
   \<and> map_of (cache (demo_cache ''lru'')) ''frame_0''
        = Some \<lparr>timestamp = 1, activations = Tensor 1 100, dependencies = [],
                              hit_count = 0, size_bytes = 400\<rparr>
   \<and> map_of (cache (demo_cache ''lru'')) ''frame_1''
        = Some \<lparr>timestamp = 2, activations = Tensor 1 100, dependencies = [''frame_0''],
                              hit_count = 0, size_bytes = 400\<rparr>
   \<and> lru_key (demo_cache ''lru'') \<noteq> Some ''frame_1''
   \<and> map_of (cache (snd (get (demo_cache ''lru'') ''frame_0'' 3))) ''frame_0''
        = Some \<lparr>timestamp = 3, activations = Tensor 1 100, dependencies = [],
                              hit_count = 1, size_bytes = 400\<rparr>
   \<and> lru_key (snd (get (demo_cache ''lru'') ''frame_0'' 3)) \<noteq> Some ''frame_0''
   \<and> lru_key (snd (get (demo_cache ''lru'') ''frame_0'' 3)) = Some ''frame_1''
   \<and> fst (hd (cache (demo_cache ''lru''))) = ''frame_0''
   \<and> map (\<lambda>p. timestamp (snd p)) (cache (snd (get (demo_cache ''lru'') ''frame_0'' 2))) = [2, 2]
   \<and> lru_key (snd (get (demo_cache ''lru'') ''frame_0'' 2)) = Some ''frame_0''
   \<and> run_ops (TemporalCache_init (1 / 1024) ''lru'')
         [Put ''frame_0'' (Tensor 1 100) [] 1, Put ''frame_1'' (Tensor 1 100) [''frame_0''] 2]
        = Some (demo_cache ''lru'')
   \<and> op_times [Put ''frame_0'' (Tensor 1 100) [] 1, Put ''frame_1'' (Tensor 1 100) [''frame_0''] 2]
        = [1, 2]
   \<and> map (\<lambda>p. timestamp (snd p)) (cache (demo_cache ''lru'')) = [1, 2]"
proof -
  let ?e0 = "\<lparr>timestamp = 1, activations = Tensor 1 100, dependencies = [],
                              hit_count = 0, size_bytes = 400\<rparr>"
  let ?e1 = "\<lparr>timestamp = 2, activations = Tensor 1 100, dependencies = [''frame_0''],
                              hit_count = 0, size_bytes = 400\<rparr>"
  let ?ops = "[Put ''frame_0'' (Tensor 1 100) [] 1, Put ''frame_1'' (Tensor 1 100) [''frame_0''] 2]"
  have pre1: "eviction_policy (demo_cache ''lru'') = ''lru''" "cache (demo_cache ''lru'') \<noteq> []"
   "max_size_bytes (demo_cache ''lru'')
        < current_size_bytes (demo_cache ''lru'') + element_size (Tensor 1 100) * nelement (Tensor 1 100)"
    by (simp_all add: demo_cache_def element_size_def nelement_def)
  have pre2: "distinct (map fst (cache (demo_cache ''lru'')))"
    "map_of (cache (demo_cache ''lru'')) ''frame_0'' = Some ?e0"
    "map_of (cache (demo_cache ''lru'')) ''frame_1'' = Some ?e1"
    by (simp_all add: demo_cache_def)
  have le3: "\<forall>p \<in> set (cache (demo_cache ''lru'')). timestamp (snd p) \<le> 3"
    and le2: "\<forall>p \<in> set (cache (demo_cache ''lru'')). timestamp (snd p) \<le> 2"
    and older: "\<exists>p \<in> set (cache (demo_cache ''lru'')). timestamp (snd p) < timestamp ?e1"
    by (simp_all add: demo_cache_def)
  have ev: "lru_key (demo_cache ''lru'') = Some ''frame_0''"
    "map_option (\<lambda>r. map fst (cache (snd r)))
        (put (demo_cache ''lru'') ''frame_2'' (Tensor 1 100) [''frame_1''] 3)
       = Some [''frame_1'', ''frame_2'']"
    "lru_key (snd (get (demo_cache ''lru'') ''frame_0'' 3)) = Some ''frame_1''"
    "fst (hd (cache (demo_cache ''lru''))) = ''frame_0''"
    "map (\<lambda>p. timestamp (snd p)) (cache (snd (get (demo_cache ''lru'') ''frame_0'' 2))) = [2, 2]"
    by code_simp+
  have ex: "\<exists>p \<in> set (cache (snd (get (demo_cache ''lru'') ''frame_0'' 3))). timestamp (snd p) < 3"
    by (simp add: demo_cache_def get_def)
  have all2: "\<forall>p \<in> set (cache (snd (get (demo_cache ''lru'') ''frame_0'' 2))). timestamp (snd p) = 2"
    by (simp add: demo_cache_def get_def)
  have run: "run_ops (TemporalCache_init (1 / 1024) ''lru'') ?ops = Some (demo_cache ''lru'')"
    "op_times ?ops = [1, 2]"
    "map (\<lambda>p. timestamp (snd p)) (cache (demo_cache ''lru'')) = [1, 2]"
    by code_simp+
  from lru_eviction_and_recency[of "demo_cache ''lru''" "Tensor 1 100" "''frame_2''" "[''frame_1'']" 3
        "''frame_0''" ?e0 3 "1 / 1024" "''lru''" ?ops]
       pre1 pre2(1,2) le3 ex run
  have a: "map_of (cache (snd (get (demo_cache ''lru'') ''frame_0'' 3))) ''frame_0''
        = Some \<lparr>timestamp = 3, activations = Tensor 1 100, dependencies = [],
                              hit_count = 1, size_bytes = 400\<rparr>"
    and b: "lru_key (snd (get (demo_cache ''lru'') ''frame_0'' 3)) \<noteq> Some ''frame_0''"
    by simp_all
  from lru_eviction_and_recency[of "demo_cache ''lru''" "Tensor 1 100" "''frame_2''" "[''frame_1'']" 3
        "''frame_1''" ?e1 2 "1 / 1024" "''lru''" ?ops]
       pre2(1,3) older
  have c: "lru_key (demo_cache ''lru'') \<noteq> Some ''frame_1''"
    by blast
  from lru_eviction_and_recency[of "demo_cache ''lru''" "Tensor 1 100" "''frame_2''" "[''frame_1'']" 3
        "''frame_0''" ?e0 2 "1 / 1024" "''lru''" ?ops]
       pre2(1,2) le2 ev(4) all2
  have d: "lru_key (snd (get (demo_cache ''lru'') ''frame_0'' 2)) = Some ''frame_0''"
    by blast
  from pre1 pre2 ev run a b c d show ?thesis by simp
qed

text \<open>
  C8, as stated, fails when two timestamps are equal, which a clock that does not go back
  allows. In a cache of 1024 bytes, \<open>frame_0\<close> is stored at time 1 and \<open>frame_1\<close> at time 2;
  a \<open>get\<close> of \<open>frame_0\<close> that reads the clock at 2 gives both entries the timestamp 2. The
  entry just read is then the first in the order of eviction, not the last: the next \<open>put\<close>
  that needs room evicts \<open>frame_0\<close> and keeps \<open>frame_1\<close>, which was used less recently.
\<close>

theorem lru_tie_evicts_entry_just_read:
  "map_option (\<lambda>c. (map (\<lambda>p. (fst p, timestamp (snd p))) (cache c), lru_key c))
     (run_ops (TemporalCache_init (1 / 1024) ''lru'')
        [Put ''frame_0'' (Tensor 1 100) [] 1, Put ''frame_1'' (Tensor 1 100) [''frame_0''] 2,
         Get ''frame_0'' 2])
     = Some ([(''frame_0'', 2), (''frame_1'', 2)], Some ''frame_0'')
   \<and> map_option (\<lambda>c. (map fst (cache c), evictions c))
       (run_ops (TemporalCache_init (1 / 1024) ''lru'')
          [Put ''frame_0'' (Tensor 1 100) [] 1, Put ''frame_1'' (Tensor 1 100) [''frame_0''] 2,
           Get ''frame_0'' 2, Put ''frame_2'' (Tensor 1 100) [''frame_1''] 3])
     = Some ([''frame_1'', ''frame_2''], 1)"
  by code_simp

lemma put_fits:
  assumes "current_size_bytes c + element_size acts * nelement acts \<le> max_size_bytes c"
  shows "put c key acts deps now =
     Some (Inr (), c\<lparr>cache := dict_set (cache c) key
                             \<lparr>timestamp = now, activations = acts, dependencies = deps,
                              hit_count = 0, size_bytes = element_size acts * nelement acts\<rparr>,
                     current_size_bytes := current_size_bytes c + element_size acts * nelement acts\<rparr>)"
proof -
  have "evict_loop c (element_size acts * nelement acts) = Some (Inr True, c)"
    using assms by (subst evict_loop.simps) simp
  then show ?thesis by (simp add: put_def Let_def)
qed

text \<open>
  C7. What \<open>put\<close> does to the running total: starting from a cache whose total equals the
  sum of the stored sizes, a \<open>put\<close> that needs no eviction leaves
  \<open>current_size_bytes\<close> equal to the stored sum only when the key is new; when the key is
  already present, the size of the replaced entry is never subtracted and the total
  exceeds the stored sum by that size.
\<close>

theorem put_size_accounting:
  "distinct (map fst (cache c)) \<and> current_size_bytes c = stored_bytes c
     \<and> current_size_bytes c + element_size acts * nelement acts \<le> max_size_bytes c \<longrightarrow>
   (\<exists>c'. put c key acts deps now = Some (Inr (), c')
      \<and> current_size_bytes c'
          = stored_bytes c' + (case map_of (cache c) key of None \<Rightarrow> 0 | Some old \<Rightarrow> size_bytes old))"
proof
  assume a: "distinct (map fst (cache c)) \<and> current_size_bytes c = stored_bytes c
     \<and> current_size_bytes c + element_size acts * nelement acts \<le> max_size_bytes c"
  let ?sz = "element_size acts * nelement acts"
  let ?entry = "\<lparr>timestamp = now, activations = acts, dependencies = deps,
                              hit_count = 0, size_bytes = ?sz\<rparr>"
  let ?c' = "c\<lparr>cache := dict_set (cache c) key ?entry, current_size_bytes := current_size_bytes c + ?sz\<rparr>"
  have p: "put c key acts deps now = Some (Inr (), ?c')"
    using a by (simp add: put_fits)
  have "stored_bytes ?c' = stored_bytes c
          - (case map_of (cache c) key of None \<Rightarrow> 0 | Some old \<Rightarrow> size_bytes old) + ?sz"
    using a dict_set_sum[of "cache c" size_bytes key ?entry] by (simp add: stored_bytes_def)
  then have "current_size_bytes ?c'
          = stored_bytes ?c' + (case map_of (cache c) key of None \<Rightarrow> 0 | Some old \<Rightarrow> size_bytes old)"
    using a by simp
  with p show "\<exists>c'. put c key acts deps now = Some (Inr (), c')
      \<and> current_size_bytes c'
          = stored_bytes c' + (case map_of (cache c) key of None \<Rightarrow> 0 | Some old \<Rightarrow> size_bytes old)"
    by blast
qed

theorem put_size_accounting_witness:
  "put (TemporalCache_init 1 ''lru'') ''frame_0'' (Tensor 1 512) [] 1 = Some (Inr (), one_frame_cache)
   \<and> distinct (map fst (cache one_frame_cache))
   \<and> current_size_bytes one_frame_cache = stored_bytes one_frame_cache
   \<and> current_size_bytes one_frame_cache + element_size (Tensor 1 512) * nelement (Tensor 1 512)
        \<le> max_size_bytes one_frame_cache
   \<and> (\<exists>c'. put one_frame_cache ''frame_0'' (Tensor 1 512) [] 2 = Some (Inr (), c')
          \<and> current_size_bytes c' = stored_bytes c' + 2048
          \<and> current_size_bytes c' = 4096 \<and> stored_bytes c' = 2048)"
proof -
  have first: "put (TemporalCache_init 1 ''lru'') ''frame_0'' (Tensor 1 512) [] 1 = Some (Inr (), one_frame_cache)"
    by code_simp
  have pre: "distinct (map fst (cache one_frame_cache))"
    "current_size_bytes one_frame_cache = stored_bytes one_frame_cache"
    "current_size_bytes one_frame_cache + element_size (Tensor 1 512) * nelement (Tensor 1 512)
        \<le> max_size_bytes one_frame_cache"
    by (simp_all add: one_frame_cache_def stored_bytes_def element_size_def nelement_def)
  have old: "map_of (cache one_frame_cache) ''frame_0''
      = Some \<lparr>timestamp = 1, activations = Tensor 1 512, dependencies = [],
                              hit_count = 0, size_bytes = 2048\<rparr>"
    by (simp add: one_frame_cache_def)
  have cur: "\<And>c'. put one_frame_cache ''frame_0'' (Tensor 1 512) [] 2 = Some (Inr (), c')
           \<Longrightarrow> current_size_bytes c' = 4096"
    using put_fits[OF pre(3), of "''frame_0''" "[]" 2]
    by (auto simp: one_frame_cache_def element_size_def nelement_def)
  from put_size_accounting[of one_frame_cache "Tensor 1 512" "''frame_0''" "[]" 2] pre old
  obtain c' where c': "put one_frame_cache ''frame_0'' (Tensor 1 512) [] 2 = Some (Inr (), c')"
     "current_size_bytes c' = stored_bytes c' + 2048" by auto
  moreover from cur[OF c'(1)] c'(2) have "current_size_bytes c' = 4096" "stored_bytes c' = 2048" by simp_all
  ultimately show ?thesis using first pre by blast
qed

text \<open>
  C9. A \<open>put\<close> of a buffer larger than the capacity, after the same key has been stored
  twice: eviction empties the cache and the \<open>put\<close> is discarded without an exception, but
  \<open>current_size_bytes\<close> is left at 400, not 0. On a cache whose total equals the stored sum
  (a new cache, for one) the same \<open>put\<close> does leave zero entries and a total of 0
  (\<open>too_large_put_consistent\<close>).
\<close>

theorem too_large_put_after_replace:
  "run_ops (TemporalCache_init (1 / 1024) ''lru'')
     [Put ''frame_0'' (Tensor 1 100) [] 1, Put ''frame_0'' (Tensor 1 100) [] 2,
      Put ''frame_1'' (Tensor 1 300) [''frame_0''] 3]
   = Some \<lparr>max_size_bytes = 1024, eviction_policy = ''lru'', cache = [],
            current_size_bytes = 400, hits = 0, misses = 0, evictions = 1\<rparr>"
  by code_simp

lemma too_large_put_consistent:
  assumes "known_policy c" "distinct (map fst (cache c))" "\<forall>p \<in> set (cache c). 0 \<le> size_bytes (snd p)"
    "current_size_bytes c = stored_bytes c" "max_size_bytes c < element_size acts * nelement acts"
  shows "\<exists>c'. put c key acts deps now = Some (Inr (), c') \<and> cache c' = [] \<and> current_size_bytes c' = 0
            \<and> max_size_bytes c' = max_size_bytes c \<and> hits c' = hits c \<and> misses c' = misses c"
proof -
  let ?sz = "element_size acts * nelement acts"
  let ?I = "\<lambda>c'. distinct (map fst (cache c')) \<and> (\<forall>p \<in> set (cache c'). 0 \<le> size_bytes (snd p))
              \<and> current_size_bytes c' = stored_bytes c' \<and> max_size_bytes c' = max_size_bytes c
              \<and> hits c' = hits c \<and> misses c' = misses c"
  have "\<exists>b c'. evict_loop c ?sz = Some (Inr b, c') \<and> ?I c' \<and> known_policy c'
           \<and> (b \<longrightarrow> current_size_bytes c' + ?sz \<le> max_size_bytes c')
           \<and> (\<not> b \<longrightarrow> cache c' = [] \<and> max_size_bytes c' < current_size_bytes c' + ?sz)"
  proof (rule evict_loop_rule[where I = ?I, OF assms(1)])
    show "?I c" using assms by simp
  next
    fix c' k e
    assume I: "?I c'" and ke: "(k, e) \<in> set (cache c')"
    have "stored_bytes (evicted c' k e) = stored_bytes c' - size_bytes e"
      using I ke by (simp add: stored_bytes_evicted)
    moreover have "set (cache (evicted c' k e)) \<subseteq> set (cache c')"
      using dict_del_set by (simp add: evicted_def)
    ultimately show "?I (evicted c' k e)"
      using I by (auto simp: evicted_def dict_del_distinct)
  qed
  then obtain b c' where r: "evict_loop c ?sz = Some (Inr b, c')" and I: "?I c'"
    and fits: "b \<longrightarrow> current_size_bytes c' + ?sz \<le> max_size_bytes c'"
    and empty: "\<not> b \<longrightarrow> cache c' = []" by blast
  have "0 \<le> stored_bytes c'"
    using I by (auto simp: stored_bytes_def intro!: sum_list_nonneg)
  with fits I assms(5) have nb: "\<not> b" by auto
  with empty I have "cache c' = []" "current_size_bytes c' = 0" by (simp_all add: stored_bytes_def)
  moreover have "put c key acts deps now = Some (Inr (), c')"
    using r nb by (simp add: put_def Let_def)
  ultimately show ?thesis using I by auto
qed

section \<open>Properties of the engine\<close>

lemma digit_cases: "d < 10 \<Longrightarrow> d \<in> {0, 1, 2, 3, 4, 5, 6, 7, 8, 9::nat}"
  by auto

lemma digit_char_props:
  assumes "d < 10"
  shows "is_digit (digit_char d)" "digit_val (digit_char d) = int d"
    "\<not> is_space (digit_char d)" "digit_char d \<noteq> CHR ''_''" "digit_char d \<noteq> CHR ''-''" "digit_char d \<noteq> CHR ''+''"
  using digit_cases[OF assms]
  by (auto simp: digit_char_def is_digit_def digit_val_def is_space_def)

lemma str_nat_unfold:
  "str_nat n = (if n < 10 then [digit_char n] else str_nat (n div 10) @ [digit_char (n mod 10)])"
  by (rule str_nat.simps)

lemma str_nat_props:
  "str_nat n \<noteq> [] \<and> list_all is_digit (str_nat n)
     \<and> foldl (\<lambda>a ch. 10 * a + digit_val ch) 0 (str_nat n) = int n"
proof (induction n rule: str_nat.induct)
  case (1 n)
  show ?case
  proof (cases "n < 10")
    case True
    then show ?thesis
      by (subst (1 2 3) str_nat_unfold) (simp add: digit_char_props)
  next
    case False
    have m: "n mod 10 < 10" by simp
    from 1[OF False] False m show ?thesis
      by (subst (1 2 3) str_nat_unfold) (simp add: digit_char_props zdiv_int zmod_int)
  qed
qed

lemma parse_digits_str_nat: "parse_digits (str_nat n) = Inr (int n)"
  using str_nat_props[of n] by (simp add: parse_digits_def)

lemma is_digit_facts:
  "is_digit ch \<Longrightarrow> \<not> is_space ch \<and> ch \<noteq> CHR ''_'' \<and> ch \<noteq> CHR ''-'' \<and> ch \<noteq> CHR ''+''"
  by (auto simp: is_digit_def is_space_def)

lemma strip_id:
  assumes "s \<noteq> []" "\<not> is_space (hd s)" "\<not> is_space (last s)"
  shows "strip s = s"
proof -
  have 1: "dropWhile is_space s = s" using assms(1,2) by (cases s) auto
  have "rev s \<noteq> []" "\<not> is_space (hd (rev s))" using assms(1,3) by (simp_all add: hd_rev)
  then have 2: "dropWhile is_space (rev s) = rev s" by (cases "rev s") auto
  show ?thesis by (simp add: strip_def 1 2)
qed

lemma str_nat_digits: "ch \<in> set (str_nat n) \<Longrightarrow> is_digit ch"
  using str_nat_props[of n] by (simp add: list_all_iff)

lemma parse_int_str_int: "parse_int (str_int i) = Inr i"
proof (cases "i < 0")
  case True
  let ?ds = "str_nat (nat (- i))"
  have ne: "?ds \<noteq> []" using str_nat_props by blast
  have "is_digit (last ?ds)" using ne str_nat_digits[of "last ?ds" "nat (- i)"] by simp
  then have "strip (CHR ''-'' # ?ds) = CHR ''-'' # ?ds"
    using ne by (intro strip_id) (auto simp: is_space_def dest: is_digit_facts)
  then show ?thesis using True
    by (simp add: parse_int_def str_int_def parse_digits_str_nat)
next
  case False
  let ?ds = "str_nat (nat i)"
  have ne: "?ds \<noteq> []" using str_nat_props by blast
  then obtain ch r where cr: "?ds = ch # r" by (cases ?ds) auto
  have d: "is_digit ch" "is_digit (last ?ds)"
    using ne cr str_nat_digits[of ch "nat i"] str_nat_digits[of "last ?ds" "nat i"] by simp_all
  then have "strip ?ds = ?ds"
    using ne cr by (intro strip_id) (auto dest: is_digit_facts)
  moreover have "parse_digits (ch # r) = Inr i"
    using parse_digits_str_nat[of "nat i"] cr False by simp
  ultimately show ?thesis using False cr d(1)
    by (auto simp: parse_int_def str_int_def dest: is_digit_facts)
qed

lemma split_on_absent: "c \<notin> set s \<Longrightarrow> split_on c s = [s]"
  by (induction s) auto

lemma str_int_no_underscore: "CHR ''_'' \<notin> set (str_int i)"
  using str_nat_digits is_digit_facts by (auto simp: str_int_def)

lemma parse_frame_idx_frame_id_of: "parse_frame_idx (frame_id_of i) = Inr i"
  by (simp add: parse_frame_idx_def frame_id_of_def split_on_absent[OF str_int_no_underscore]
        parse_int_str_int)

lemma all_deps_cached_policy:
  "all_deps_cached now k c deps = (b, c', k') \<Longrightarrow> known_policy c' = known_policy c"
proof (induction deps arbitrary: k c)
  case Nil
  then show ?case by simp
next
  case (Cons dep deps)
  obtain t c1 where g: "get c dep (now k) = (t, c1)" by (cases "get c dep (now k)")
  have p: "known_policy c1 = known_policy c"
    using known_policy_get[of c dep "now k"] g by simp
  show ?case
  proof (cases t)
    case None
    with Cons.prems g p show ?thesis by simp
  next
    case (Some a)
    with Cons.prems g have "all_deps_cached now (Suc k) c1 deps = (b, c', k')" by simp
    from Cons.IH[OF this] p show ?thesis by simp
  qed
qed


lemma recompute_step:
  assumes "recompute now k eng lg (frame_id # rest) = Some (r, eng', lg')"
  shows "(\<exists>e. r = Inl e \<and> lg' = lg \<and> eng' = eng \<and> parse_frame_idx frame_id = Inl e)
        \<or> (\<exists>cached e c. r = Inl e \<and> lg' = lg @ [(frame_id, cached)] \<and> eng' = eng\<lparr>engine_cache := c\<rparr>)
        \<or> (\<exists>cached k1 c audio w.
               recompute now k1 (eng\<lparr>engine_cache := c, current_audio := Some audio, audio_writes := w\<rparr>)
                 (lg @ [(frame_id, cached)]) rest = Some (r, eng', lg'))"
proof (cases "parse_frame_idx frame_id")
  case (Inl e)
  then show ?thesis using assms by simp
next
  case (Inr frame_idx)
  let ?deps = "get_dependencies (dependency_graph eng) frame_id"
  obtain cached c1 k1 where a: "all_deps_cached now k (engine_cache eng) ?deps = (cached, c1, k1)"
    by (cases "all_deps_cached now k (engine_cache eng) ?deps") auto
  show ?thesis
  proof (cases "torch_randn 1 (frame_size eng)")
    case (Inl e)
    then have "r = Inl e \<and> lg' = lg @ [(frame_id, cached)] \<and> eng' = eng\<lparr>engine_cache := c1\<rparr>"
      using assms Inr a by (simp add: Let_def)
    then show ?thesis by blast
  next
    case fa: (Inr frame_audio)
    from assms Inr a fa obtain pr c2 where
      p: "put c1 frame_id frame_audio ?deps (now k1) = Some (pr, c2)"
      by (cases "put c1 frame_id frame_audio ?deps (now k1)") (auto simp: Let_def)
    show ?thesis
    proof (cases pr)
      case (Inl e)
      then have "r = Inl e \<and> lg' = lg @ [(frame_id, cached)] \<and> eng' = eng\<lparr>engine_cache := c2\<rparr>"
        using assms Inr a fa p by (simp add: Let_def)
      then show ?thesis by blast
    next
      case pu: (Inr u)
      show ?thesis
      proof (cases "slice_assign (current_audio eng) (frame_idx * frame_size eng)
                       ((frame_idx + 1) * frame_size eng) frame_audio")
        case (Inl e)
        then have "r = Inl e \<and> lg' = lg @ [(frame_id, cached)] \<and> eng' = eng\<lparr>engine_cache := c2\<rparr>"
          using assms Inr a fa p pu by (simp add: Let_def)
        then show ?thesis by blast
      next
        case sa: (Inr audio)
        then have "recompute now (Suc k1)
                     (eng\<lparr>engine_cache := c2, current_audio := Some audio,
                          audio_writes := audio_writes eng
                            @ [(frame_idx * frame_size eng, (frame_idx + 1) * frame_size eng)]\<rparr>)
                     (lg @ [(frame_id, cached)]) rest = Some (r, eng', lg')"
          using assms Inr a fa p pu by (simp add: Let_def)
        then show ?thesis by blast
      qed
    qed
  qed
qed

lemma recompute_log:
  "recompute now k eng lg frames = Some (r, eng', lg') \<Longrightarrow>
     dependency_graph eng' = dependency_graph eng \<and> frame_size eng' = frame_size eng
     \<and> current_length_frames eng' = current_length_frames eng
     \<and> (\<exists>dn rest. lg' = lg @ dn \<and> frames = map fst dn @ rest \<and> (\<forall>k'. r = Inr k' \<longrightarrow> rest = []))"
proof (induction frames arbitrary: k eng lg)
  case Nil
  then show ?case by simp
next
  case (Cons frame_id rest)
  from recompute_step[OF Cons.prems] consider
    (c_parse) e where "r = Inl e" "lg' = lg" "eng' = eng"
  | (c_fail) cached e c where "r = Inl e" "lg' = lg @ [(frame_id, cached)]" "eng' = eng\<lparr>engine_cache := c\<rparr>"
  | (c_next) cached k1 c audio w where
      "recompute now k1 (eng\<lparr>engine_cache := c, current_audio := Some audio, audio_writes := w\<rparr>)
         (lg @ [(frame_id, cached)]) rest = Some (r, eng', lg')"
    by blast
  then show ?case
  proof cases
    case c_parse
    then show ?thesis by simp
  next
    case c_fail
    have "lg' = lg @ [(frame_id, cached)] \<and> frame_id # rest = map fst [(frame_id, cached)] @ rest
            \<and> (\<forall>k'. r = Inr k' \<longrightarrow> rest = [])"
      using c_fail by simp
    then have "\<exists>dn rest'. lg' = lg @ dn \<and> frame_id # rest = map fst dn @ rest'
            \<and> (\<forall>k'. r = Inr k' \<longrightarrow> rest' = [])" by blast
    then show ?thesis using c_fail(3) by simp
  next
    case c_next
    from Cons.IH[OF this] obtain dn rest' where
      g: "dependency_graph eng' = dependency_graph eng" "frame_size eng' = frame_size eng"
         "current_length_frames eng' = current_length_frames eng"
      and d: "lg' = (lg @ [(frame_id, cached)]) @ dn" "rest = map fst dn @ rest'"
         "\<forall>k'. r = Inr k' \<longrightarrow> rest' = []"
      by auto
    have "lg' = lg @ ((frame_id, cached) # dn) \<and> frame_id # rest = map fst ((frame_id, cached) # dn) @ rest'
            \<and> (\<forall>k'. r = Inr k' \<longrightarrow> rest' = [])"
      using d by simp
    then have "\<exists>dn rest'. lg' = lg @ dn \<and> frame_id # rest = map fst dn @ rest'
            \<and> (\<forall>k'. r = Inr k' \<longrightarrow> rest' = [])" by blast
    then show ?thesis using g by simp
  qed
qed

lemma recompute_total:
  "known_policy (engine_cache eng) \<Longrightarrow> \<exists>r. recompute now k eng lg frames = Some r"
proof (induction frames arbitrary: k eng lg)
  case Nil
  then show ?case by simp
next
  case (Cons frame_id rest)
  show ?case
  proof (cases "parse_frame_idx frame_id")
    case (Inl e)
    then show ?thesis by simp
  next
    case (Inr frame_idx)
    let ?deps = "get_dependencies (dependency_graph eng) frame_id"
    obtain cached c1 k1 where a: "all_deps_cached now k (engine_cache eng) ?deps = (cached, c1, k1)"
      by (cases "all_deps_cached now k (engine_cache eng) ?deps") auto
    have p1: "known_policy c1" using all_deps_cached_policy[OF a] Cons.prems by simp
    show ?thesis
    proof (cases "torch_randn 1 (frame_size eng)")
      case (Inl e)
      then show ?thesis using Inr a by (simp add: Let_def)
    next
      case fa: (Inr frame_audio)
      from put_total[OF p1, of frame_id frame_audio ?deps "now k1"] obtain c2 where
        p: "put c1 frame_id frame_audio ?deps (now k1) = Some (Inr (), c2)" and p2: "known_policy c2"
        by blast
      show ?thesis
      proof (cases "slice_assign (current_audio eng) (frame_idx * frame_size eng)
                       ((frame_idx + 1) * frame_size eng) frame_audio")
        case (Inl e)
        then show ?thesis using Inr a fa p by (simp add: Let_def)
      next
        case sa: (Inr audio)
        let ?eng2 = "eng\<lparr>engine_cache := c2, current_audio := Some audio,
                      audio_writes := audio_writes eng
                        @ [(frame_idx * frame_size eng, (frame_idx + 1) * frame_size eng)]\<rparr>"
        have "known_policy (engine_cache ?eng2)"
          using p2 by simp
        from Cons.IH[OF this, of "Suc k1" "lg @ [(frame_id, cached)]"]
        show ?thesis using Inr a fa p sa by (simp add: Let_def)
      qed
    qed
  qed
qed


lemma frame_range_changed:
  "frame_range eng edit = Inr (s, e) \<Longrightarrow> changed_frames eng edit = frames_between s e"
  by (simp add: changed_frames_def)

lemma apply_edit_unfold:
  "apply_edit now eng edit =
     (case frame_range eng edit of
        Inl e \<Rightarrow> Some (Inl e, eng, [])
      | Inr rng \<Rightarrow>
        (let affected = affected_frames eng edit;
             c = invalidate (engine_cache eng) affected
         in case recompute now 1 (eng\<lparr>engine_cache := c\<rparr>) [] (sort affected) of
              None \<Rightarrow> None
            | Some (Inl e, eng', lg) \<Rightarrow> Some (Inl e, eng', lg)
            | Some (Inr k, eng', lg) \<Rightarrow>
                (let elapsed = now k - now 0;
                     baseline_time = of_nat (length affected) * (1 / 10);
                     sp = (if elapsed > 0 then baseline_time / elapsed else 1)
                 in if current_length_frames eng' = 0 then Some (Inl ZeroDivisionError, eng', lg)
                    else
                      (case get_stats (engine_cache eng') of
                         Inl e \<Rightarrow> Some (Inl e, eng', lg)
                       | Inr stats \<Rightarrow>
                           Some (Inr \<lparr>latency_ms = elapsed * 1000,
                                      frames_recomputed = int (length affected),
                                      frames_total = current_length_frames eng',
                                      recompute_ratio = of_nat (length affected)
                                                        / of_int (current_length_frames eng'),
                                      speedup = sp, cache_stats = stats\<rparr>,
                                 eng', lg)))))"
proof (cases "frame_range eng edit")
  case (Inl e)
  then show ?thesis by (simp add: apply_edit_def)
next
  case (Inr rng)
  obtain s e where "rng = (s, e)" by (cases rng)
  with Inr show ?thesis
    by (simp add: apply_edit_def affected_frames_def changed_frames_def)
qed

lemma apply_edit_range_error:
  "frame_range eng edit = Inl e \<Longrightarrow> apply_edit now eng edit = Some (Inl e, eng, [])"
  by (simp add: apply_edit_def)

lemma apply_edit_of_recompute:
  assumes "frame_range eng edit = Inr rng"
    and "recompute now 1 (eng\<lparr>engine_cache := invalidate (engine_cache eng) (affected_frames eng edit)\<rparr>)
           [] (sort (affected_frames eng edit)) = Some (r, eng', lg)"
  shows "r = Inl e \<Longrightarrow> apply_edit now eng edit = Some (Inl e, eng', lg)"
    and "r = Inr k \<Longrightarrow> current_length_frames eng' = 0 \<Longrightarrow>
           apply_edit now eng edit = Some (Inl ZeroDivisionError, eng', lg)"
  using assms by (simp_all add: apply_edit_unfold Let_def)

lemma apply_edit_success:
  assumes "apply_edit now eng edit = Some (Inr m, eng', lg)"
  shows "\<exists>rng k. frame_range eng edit = Inr rng
     \<and> recompute now 1 (eng\<lparr>engine_cache := invalidate (engine_cache eng) (affected_frames eng edit)\<rparr>)
           [] (sort (affected_frames eng edit)) = Some (Inr k, eng', lg)
     \<and> frames_recomputed m = int (length (affected_frames eng edit))
     \<and> frames_total m = current_length_frames eng'
     \<and> recompute_ratio m = of_nat (length (affected_frames eng edit)) / of_int (current_length_frames eng')
     \<and> current_length_frames eng' \<noteq> 0"
proof (cases "frame_range eng edit")
  case (Inl e)
  then show ?thesis using assms by (simp add: apply_edit_def)
next
  case (Inr rng)
  let ?R = "recompute now 1 (eng\<lparr>engine_cache := invalidate (engine_cache eng) (affected_frames eng edit)\<rparr>)
           [] (sort (affected_frames eng edit))"
  from assms Inr obtain r1 e1 l1 where R: "?R = Some (r1, e1, l1)"
    by (cases ?R) (auto simp: apply_edit_unfold Let_def)
  from assms Inr R obtain k where k: "r1 = Inr k"
    by (cases r1) (auto simp: apply_edit_unfold Let_def)
  from assms Inr R k have n0: "current_length_frames e1 \<noteq> 0"
    by (auto simp: apply_edit_unfold Let_def split: if_splits)
  from assms Inr R k n0 obtain stats where st: "get_stats (engine_cache e1) = Inr stats"
    by (cases "get_stats (engine_cache e1)") (auto simp: apply_edit_unfold Let_def)
  from assms Inr R k n0 st show ?thesis
    by (auto simp: apply_edit_unfold Let_def)
qed

lemma apply_edit_total:
  assumes "known_policy (engine_cache eng)"
  shows "\<exists>r. apply_edit now eng edit = Some r"
proof (cases "frame_range eng edit")
  case (Inl e)
  then show ?thesis by (simp add: apply_edit_def)
next
  case (Inr rng)
  let ?eng1 = "eng\<lparr>engine_cache := invalidate (engine_cache eng) (affected_frames eng edit)\<rparr>"
  have "known_policy (engine_cache ?eng1)" using assms by (simp add: known_policy_invalidate)
  from recompute_total[OF this, of now 1 "[]" "sort (affected_frames eng edit)"]
  obtain r where "recompute now 1 ?eng1 [] (sort (affected_frames eng edit)) = Some r" by blast
  then show ?thesis using Inr
    by (auto simp: apply_edit_unfold Let_def split: sum.splits prod.splits option.splits)
qed

lemma apply_edit_log:
  assumes "apply_edit now eng edit = Some (r, eng', lg)"
  shows "dependency_graph eng' = dependency_graph eng \<and> frame_size eng' = frame_size eng
     \<and> current_length_frames eng' = current_length_frames eng
     \<and> (\<exists>rest. sort (affected_frames eng edit) = map fst lg @ rest \<and> (\<forall>m. r = Inr m \<longrightarrow> rest = []))"
proof (cases "frame_range eng edit")
  case (Inl e)
  then show ?thesis using assms by (auto simp: apply_edit_def)
next
  case (Inr rng)
  let ?eng1 = "eng\<lparr>engine_cache := invalidate (engine_cache eng) (affected_frames eng edit)\<rparr>"
  from assms Inr obtain r1 where
    rc: "recompute now 1 ?eng1 [] (sort (affected_frames eng edit)) = Some (r1, eng', lg)"
    and rr: "\<forall>m. r = Inr m \<longrightarrow> (\<exists>k. r1 = Inr k)"
    by (auto simp: apply_edit_unfold Let_def split: sum.splits prod.splits option.splits if_splits)
  from recompute_log[OF rc] rr show ?thesis by auto
qed

lemma apply_edit_cong:
  "frame_range eng e1 = frame_range eng e2 \<Longrightarrow> apply_edit now eng e1 = apply_edit now eng e2"
  by (simp add: apply_edit_def)

lemma apply_edit_metrics:
  assumes "apply_edit now eng edit = Some (Inr m, eng', lg)"
  shows "frames_recomputed m = int (length (affected_frames eng edit))
     \<and> frames_total m = current_length_frames eng
     \<and> recompute_ratio m = of_nat (length (affected_frames eng edit)) / of_int (current_length_frames eng)
     \<and> current_length_frames eng \<noteq> 0"
  using apply_edit_success[OF assms] apply_edit_log[OF assms] by auto

lemma map_of_dict_del: "map_of (dict_del d k) = (map_of d)(k := None)"
  unfolding dict_del_def by (induction d) (auto simp: fun_eq_iff)

lemma cache_data_get:
  "cache_data (snd (get c key now)) = cache_data c
   \<and> current_size_bytes (snd (get c key now)) = current_size_bytes c
   \<and> max_size_bytes (snd (get c key now)) = max_size_bytes c"
proof (cases "map_of (cache c) key")
  case None
  then show ?thesis by (simp add: get_def cache_data_def fun_eq_iff)
next
  case (Some entry)
  then show ?thesis
    by (auto simp: get_def cache_data_def fun_eq_iff dict_set_map_of entry_data_def)
qed

lemma all_deps_cached_data:
  "all_deps_cached now k c deps = (b, c', k') \<Longrightarrow>
     cache_data c' = cache_data c \<and> current_size_bytes c' = current_size_bytes c
     \<and> max_size_bytes c' = max_size_bytes c"
proof (induction deps arbitrary: k c)
  case Nil
  then show ?case by simp
next
  case (Cons dep deps)
  obtain t c1 where g: "get c dep (now k) = (t, c1)" by (cases "get c dep (now k)")
  have p: "cache_data c1 = cache_data c \<and> current_size_bytes c1 = current_size_bytes c
     \<and> max_size_bytes c1 = max_size_bytes c"
    using cache_data_get[of c dep "now k"] g by simp
  show ?case
  proof (cases t)
    case None
    with Cons.prems g p show ?thesis by simp
  next
    case (Some a)
    with Cons.prems g have "all_deps_cached now (Suc k) c1 deps = (b, c', k')" by simp
    from Cons.IH[OF this] p show ?thesis by simp
  qed
qed

lemma cache_data_invalidate:
  "cache_data (invalidate c keys) key = (if key \<in> set keys then None else cache_data c key)"
proof (induction keys arbitrary: c)
  case Nil
  then show ?case by simp
next
  case (Cons k keys)
  show ?case
  proof (cases "map_of (cache c) k")
    case None
    then show ?thesis using Cons[of c] by (auto simp: cache_data_def)
  next
    case (Some entry)
    let ?c' = "c\<lparr>current_size_bytes := current_size_bytes c - size_bytes entry,
                   cache := dict_del (cache c) k\<rparr>"
    have "cache_data ?c' key = (if key = k then None else cache_data c key)"
      by (simp add: cache_data_def map_of_dict_del)
    then show ?thesis using Some Cons[of ?c'] by auto
  qed
qed

lemma max_size_invalidate: "max_size_bytes (invalidate c keys) = max_size_bytes c"
  by (induction keys arbitrary: c) (auto split: option.splits)

lemma recompute_ok_step:
  assumes "recompute now k eng lg (f # rest) = Some (Inr k', eng', lg')"
  obtains i cached c1 k1 c2 audio where
    "parse_frame_idx f = Inr i"
    "all_deps_cached now k (engine_cache eng) (get_dependencies (dependency_graph eng) f) = (cached, c1, k1)"
    "0 \<le> frame_size eng"
    "put c1 f (Tensor 1 (nat (frame_size eng))) (get_dependencies (dependency_graph eng) f) (now k1)
       = Some (Inr (), c2)"
    "recompute now (Suc k1)
       (eng\<lparr>engine_cache := c2, current_audio := Some audio,
            audio_writes := audio_writes eng @ [(i * frame_size eng, (i + 1) * frame_size eng)]\<rparr>)
       (lg @ [(f, cached)]) rest = Some (Inr k', eng', lg')"
proof -
  let ?deps = "get_dependencies (dependency_graph eng) f"
  from assms obtain i where i: "parse_frame_idx f = Inr i"
    by (cases "parse_frame_idx f") auto
  obtain cached c1 k1 where a: "all_deps_cached now k (engine_cache eng) ?deps = (cached, c1, k1)"
    by (cases "all_deps_cached now k (engine_cache eng) ?deps") auto
  from assms i a obtain fa where fa: "torch_randn 1 (frame_size eng) = Inr fa"
    by (cases "torch_randn 1 (frame_size eng)") (auto simp: Let_def)
  then have fs: "0 \<le> frame_size eng" and fa': "fa = Tensor 1 (nat (frame_size eng))"
    by (auto simp: torch_randn_def split: if_splits)
  from assms i a fa obtain pr c2 where p: "put c1 f fa ?deps (now k1) = Some (pr, c2)"
    by (cases "put c1 f fa ?deps (now k1)") (auto simp: Let_def)
  from assms i a fa p have pr: "pr = Inr ()"
    by (cases pr) (auto simp: Let_def)
  from assms i a fa p pr obtain audio where
    sa: "slice_assign (current_audio eng) (i * frame_size eng) ((i + 1) * frame_size eng) fa = Inr audio"
    by (cases "slice_assign (current_audio eng) (i * frame_size eng) ((i + 1) * frame_size eng) fa")
       (auto simp: Let_def)
  from assms i a fa p pr sa have
    "recompute now (Suc k1)
       (eng\<lparr>engine_cache := c2, current_audio := Some audio,
            audio_writes := audio_writes eng @ [(i * frame_size eng, (i + 1) * frame_size eng)]\<rparr>)
       (lg @ [(f, cached)]) rest = Some (Inr k', eng', lg')"
    by (simp add: Let_def)
  with that i a fs p pr fa' show ?thesis by blast
qed

lemma recompute_writes:
  "recompute now k eng lg frames = Some (Inr k', eng', lg') \<Longrightarrow>
     audio_writes eng' = audio_writes eng @ map (frame_slice (frame_size eng)) frames"
proof (induction frames arbitrary: k eng lg)
  case Nil
  then show ?case by simp
next
  case (Cons f rest)
  from Cons.prems obtain i cached c1 k1 c2 audio where
    i: "parse_frame_idx f = Inr i"
    and r: "recompute now (Suc k1)
       (eng\<lparr>engine_cache := c2, current_audio := Some audio,
            audio_writes := audio_writes eng @ [(i * frame_size eng, (i + 1) * frame_size eng)]\<rparr>)
       (lg @ [(f, cached)]) rest = Some (Inr k', eng', lg')"
    by (rule recompute_ok_step)
  from Cons.IH[OF r] i show ?case by (simp add: frame_slice_def)
qed

lemma recompute_data:
  assumes "recompute now k eng lg frames = Some (Inr k', eng', lg')"
    and "current_size_bytes (engine_cache eng) + int (length frames) * (4 * frame_size eng)
           \<le> max_size_bytes (engine_cache eng)"
  shows "cache_data (engine_cache eng') key =
           (if key \<in> set frames
            then Some (Tensor 1 (nat (frame_size eng)), get_dependencies (dependency_graph eng) key,
                       4 * frame_size eng)
            else cache_data (engine_cache eng) key)"
  using assms
proof (induction frames arbitrary: k eng lg)
  case Nil
  then show ?case by simp
next
  case (Cons f rest)
  let ?fs = "frame_size eng"
  let ?deps = "get_dependencies (dependency_graph eng) f"
  from Cons.prems(1) obtain i cached c1 k1 c2 audio where
    a: "all_deps_cached now k (engine_cache eng) ?deps = (cached, c1, k1)"
    and fs: "0 \<le> ?fs"
    and p: "put c1 f (Tensor 1 (nat ?fs)) ?deps (now k1) = Some (Inr (), c2)"
    and r: "recompute now (Suc k1)
       (eng\<lparr>engine_cache := c2, current_audio := Some audio,
            audio_writes := audio_writes eng @ [(i * ?fs, (i + 1) * ?fs)]\<rparr>)
       (lg @ [(f, cached)]) rest = Some (Inr k', eng', lg')"
    by (rule recompute_ok_step)
  let ?eng2 = "eng\<lparr>engine_cache := c2, current_audio := Some audio,
            audio_writes := audio_writes eng @ [(i * ?fs, (i + 1) * ?fs)]\<rparr>"
  from all_deps_cached_data[OF a] have c1: "cache_data c1 = cache_data (engine_cache eng)"
    "current_size_bytes c1 = current_size_bytes (engine_cache eng)"
    "max_size_bytes c1 = max_size_bytes (engine_cache eng)" by simp_all
  have sz: "element_size (Tensor 1 (nat ?fs)) * nelement (Tensor 1 (nat ?fs)) = 4 * ?fs"
    using fs by (simp add: element_size_def nelement_def)
  have rest_nonneg: "0 \<le> int (length rest) * (4 * ?fs)" using fs by simp
  have fit1: "current_size_bytes c1
                + element_size (Tensor 1 (nat ?fs)) * nelement (Tensor 1 (nat ?fs))
              \<le> max_size_bytes c1"
    using Cons.prems(2) c1 rest_nonneg unfolding sz by (simp add: algebra_simps)
  from put_fits[OF fit1, of f ?deps "now k1"] p
  have c2: "c2 = c1\<lparr>cache := dict_set (cache c1) f
                             \<lparr>timestamp = now k1, activations = Tensor 1 (nat ?fs),
                              dependencies = ?deps, hit_count = 0, size_bytes = 4 * ?fs\<rparr>,
                     current_size_bytes := current_size_bytes c1 + 4 * ?fs\<rparr>"
    unfolding sz by simp
  have d2: "cache_data c2 key' =
              (if key' = f then Some (Tensor 1 (nat ?fs), ?deps, 4 * ?fs)
               else cache_data (engine_cache eng) key')" for key'
    using c1(1) by (simp add: c2 cache_data_def dict_set_map_of entry_data_def fun_eq_iff)
  have fit2: "current_size_bytes (engine_cache ?eng2) + int (length rest) * (4 * frame_size ?eng2)
           \<le> max_size_bytes (engine_cache ?eng2)"
    using Cons.prems(2) c1 by (simp add: c2 algebra_simps)
  from Cons.IH[OF r fit2] d2[of key] show ?case by auto
qed

lemma scenario_10_frames:
  "(case generate_full na (SparseInferenceEngine_init 1000 512) prompt 10 512 of
      Some (Inr audio, eng) \<Rightarrow>
        frame_size eng = 512 \<and> current_length_frames eng = 10
        \<and> dependency_graph eng = chain_graph 10
        \<and> audio_writes eng = []
        \<and> cache (engine_cache eng)
             = map (\<lambda>i. (frame_id_of i, frame_entry (na (nat (i + 1))) i 0)) [0..9]
        \<and> edit_fits eng (edit_at 4096 4096)
        \<and> (case apply_edit nb eng (edit_at 4096 4096) of
             Some (Inr m, eng', lg) \<Rightarrow>
               lg = [(''frame_8'', True), (''frame_9'', True)]
               \<and> recompute_ratio m = 2 / 10 \<and> frames_recomputed m = 2 \<and> frames_total m = 10
               \<and> cache (engine_cache eng')
                    = map (\<lambda>i. (frame_id_of i, frame_entry (na (nat (i + 1))) i 0)) [0..6]
                      @ [(''frame_7'', frame_entry (nb 1) 7 1),
                         (''frame_8'', frame_entry (nb 3) 8 1),
                         (''frame_9'', frame_entry (nb 4) 9 0)]
               \<and> audio_writes eng' = [(4096, 4608), (4608, 5120)]
               \<and> current_audio eng' = current_audio eng
               \<and> dependency_graph eng' = chain_graph 10
           | _ \<Rightarrow> False)
    | _ \<Rightarrow> False)"
  by code_simp

lemma frame_range_8:
  assumes "frame_size eng = 512" "frame_index (fst (affected_region edit)) 512 = Inr 8"
    "frame_index (snd (affected_region edit)) 512 = Inr 8"
  shows "frame_range eng edit = Inr (8, 8)"
  using assms by (simp add: frame_range_def)

text \<open>
  C1. After \<open>generate_full\<close> on a new engine with \<open>frame_size = 512\<close> has produced 10
  frames (5120 samples; the graph is then the chain \<open>frame_i -> frame_(i-1)\<close>, and the cache
  holds the ten frames), \<open>apply_edit\<close> on any edit whose region maps to frame 8 returns, has
  recomputed exactly \<open>frame_8\<close> and \<open>frame_9\<close>, and reports \<open>recompute_ratio = 2/10\<close>, for
  every clock. Recomputed means: the loop has logged the two frames, has stored a new entry
  for each in the cache and has written each to its slice of the buffer, \<open>[4096, 4608)\<close>
  and \<open>[4608, 5120)\<close>, and nothing else was written. The entries of \<open>frame_0\<close>, ...,
  \<open>frame_6\<close> are exactly as \<open>generate_full\<close> stored them; the entry of \<open>frame_7\<close> keeps its
  data and has only been read (as the dependency of \<open>frame_8\<close>), which sets its timestamp
  and hit count. In general, for every engine and edit: \<open>apply_edit\<close> never hangs under a
  recognised eviction policy, and when it returns its metrics, the frames it has recomputed
  are exactly the affected frames, that is \<open>changed\<close> and everything reachable from it along
  the dependents relation, each once, in sorted order; \<open>frames_recomputed\<close> is their number;
  the writes to the buffer are exactly the slices of these frames; and when the affected
  frames fit the cache after the invalidation, the cache holds a new entry for each of
  them and the data of every other key is as before.
\<close>

theorem apply_edit_recompute_set:
  "(\<exists>audio eng.
       generate_full now0 (SparseInferenceEngine_init 1000 512) prompt 10 512 = Some (Inr audio, eng)
       \<and> current_length_frames eng = 10 \<and> dependency_graph eng = chain_graph 10
       \<and> audio_writes eng = []
       \<and> cache (engine_cache eng)
            = map (\<lambda>i. (frame_id_of i, frame_entry (now0 (nat (i + 1))) i 0)) [0..9]
       \<and> (\<forall>edit. frame_index (fst (affected_region edit)) 512 = Inr 8
                 \<and> frame_index (snd (affected_region edit)) 512 = Inr 8 \<longrightarrow>
            (\<exists>m eng'. apply_edit now1 eng edit
                          = Some (Inr m, eng', [(''frame_8'', True), (''frame_9'', True)])
                \<and> frames_recomputed m = 2 \<and> frames_total m = 10 \<and> recompute_ratio m = 2 / 10
                \<and> cache (engine_cache eng')
                     = map (\<lambda>i. (frame_id_of i, frame_entry (now0 (nat (i + 1))) i 0)) [0..6]
                       @ [(''frame_7'', frame_entry (now1 1) 7 1),
                          (''frame_8'', frame_entry (now1 3) 8 1),
                          (''frame_9'', frame_entry (now1 4) 9 0)]
                \<and> audio_writes eng' = [(4096, 4608), (4608, 5120)]
                \<and> current_audio eng' = current_audio eng
                \<and> dependency_graph eng' = chain_graph 10)))
   \<and> (known_policy (engine_cache e) \<longrightarrow> (\<exists>r. apply_edit now e ed = Some r))
   \<and> (\<forall>m e' lg. apply_edit now e ed = Some (Inr m, e', lg) \<longrightarrow>
         map fst lg = sort (affected_frames e ed)
         \<and> distinct (map fst lg)
         \<and> set (map fst lg) = (dependents_rel (dependency_graph e))\<^sup>* `` set (changed_frames e ed)
         \<and> frames_recomputed m = int (length lg)
         \<and> audio_writes e' = audio_writes e @ map (frame_slice (frame_size e)) (sort (affected_frames e ed))
         \<and> (edit_fits e ed \<longrightarrow>
              (\<forall>key. cache_data (engine_cache e') key =
                 (if key \<in> set (affected_frames e ed)
                  then Some (Tensor 1 (nat (frame_size e)),
                             get_dependencies (dependency_graph e) key, 4 * frame_size e)
                  else cache_data (engine_cache e) key))))"
proof (intro conjI impI allI)
  let ?G = "generate_full now0 (SparseInferenceEngine_init 1000 512) prompt 10 512"
  note sc = scenario_10_frames[where na = now0 and nb = now1 and prompt = prompt]
  from sc obtain r eng where G0: "?G = Some (r, eng)"
    by (cases ?G) auto
  from sc G0 obtain audio where "r = Inr audio"
    by (cases r) auto
  with G0 have G: "?G = Some (Inr audio, eng)" by simp
  let ?A = "apply_edit now1 eng (edit_at 4096 4096)"
  from sc G have eng: "frame_size eng = 512" "current_length_frames eng = 10"
      "dependency_graph eng = chain_graph 10" "audio_writes eng = []"
      "cache (engine_cache eng)
            = map (\<lambda>i. (frame_id_of i, frame_entry (now0 (nat (i + 1))) i 0)) [0..9]"
    by simp_all
  from sc G obtain ra eng' lg where A0: "?A = Some (ra, eng', lg)"
    by (cases ?A) auto
  from sc G A0 obtain m where "ra = Inr m"
    by (cases ra) auto
  with sc G A0 have A: "?A = Some (Inr m, eng', [(''frame_8'', True), (''frame_9'', True)])"
      and M: "recompute_ratio m = 2 / 10" "frames_recomputed m = 2" "frames_total m = 10"
      and S: "cache (engine_cache eng')
                     = map (\<lambda>i. (frame_id_of i, frame_entry (now0 (nat (i + 1))) i 0)) [0..6]
                       @ [(''frame_7'', frame_entry (now1 1) 7 1),
                          (''frame_8'', frame_entry (now1 3) 8 1),
                          (''frame_9'', frame_entry (now1 4) 9 0)]"
         "audio_writes eng' = [(4096, 4608), (4608, 5120)]"
         "current_audio eng' = current_audio eng"
         "dependency_graph eng' = chain_graph 10"
    by simp_all
  have i8: "frame_index 4096 512 = Inr 8" by code_simp
  have "\<forall>edit. frame_index (fst (affected_region edit)) 512 = Inr 8
                 \<and> frame_index (snd (affected_region edit)) 512 = Inr 8 \<longrightarrow>
            (\<exists>m eng'. apply_edit now1 eng edit
                          = Some (Inr m, eng', [(''frame_8'', True), (''frame_9'', True)])
                \<and> frames_recomputed m = 2 \<and> frames_total m = 10 \<and> recompute_ratio m = 2 / 10
                \<and> cache (engine_cache eng')
                     = map (\<lambda>i. (frame_id_of i, frame_entry (now0 (nat (i + 1))) i 0)) [0..6]
                       @ [(''frame_7'', frame_entry (now1 1) 7 1),
                          (''frame_8'', frame_entry (now1 3) 8 1),
                          (''frame_9'', frame_entry (now1 4) 9 0)]
                \<and> audio_writes eng' = [(4096, 4608), (4608, 5120)]
                \<and> current_audio eng' = current_audio eng
                \<and> dependency_graph eng' = chain_graph 10)"
  proof (intro allI impI)
    fix edit :: EditOperation
    assume r: "frame_index (fst (affected_region edit)) 512 = Inr 8
                 \<and> frame_index (snd (affected_region edit)) 512 = Inr 8"
    have "frame_range eng (edit_at 4096 4096) = Inr (8, 8)"
      by (rule frame_range_8[OF eng(1)]) (simp_all add: edit_at_def i8)
    moreover have "frame_range eng edit = Inr (8, 8)"
      using r by (intro frame_range_8[OF eng(1)]) simp_all
    ultimately have "apply_edit now1 eng edit = ?A"
      by (intro apply_edit_cong) simp
    with A M S show "\<exists>m eng'. apply_edit now1 eng edit
                          = Some (Inr m, eng', [(''frame_8'', True), (''frame_9'', True)])
                \<and> frames_recomputed m = 2 \<and> frames_total m = 10 \<and> recompute_ratio m = 2 / 10
                \<and> cache (engine_cache eng')
                     = map (\<lambda>i. (frame_id_of i, frame_entry (now0 (nat (i + 1))) i 0)) [0..6]
                       @ [(''frame_7'', frame_entry (now1 1) 7 1),
                          (''frame_8'', frame_entry (now1 3) 8 1),
                          (''frame_9'', frame_entry (now1 4) 9 0)]
                \<and> audio_writes eng' = [(4096, 4608), (4608, 5120)]
                \<and> current_audio eng' = current_audio eng
                \<and> dependency_graph eng' = chain_graph 10"
      by simp
  qed
  with G eng show "\<exists>audio eng.
       ?G = Some (Inr audio, eng)
       \<and> current_length_frames eng = 10 \<and> dependency_graph eng = chain_graph 10
       \<and> audio_writes eng = []
       \<and> cache (engine_cache eng)
            = map (\<lambda>i. (frame_id_of i, frame_entry (now0 (nat (i + 1))) i 0)) [0..9]
       \<and> (\<forall>edit. frame_index (fst (affected_region edit)) 512 = Inr 8
                 \<and> frame_index (snd (affected_region edit)) 512 = Inr 8 \<longrightarrow>
            (\<exists>m eng'. apply_edit now1 eng edit
                          = Some (Inr m, eng', [(''frame_8'', True), (''frame_9'', True)])
                \<and> frames_recomputed m = 2 \<and> frames_total m = 10 \<and> recompute_ratio m = 2 / 10
                \<and> cache (engine_cache eng')
                     = map (\<lambda>i. (frame_id_of i, frame_entry (now0 (nat (i + 1))) i 0)) [0..6]
                       @ [(''frame_7'', frame_entry (now1 1) 7 1),
                          (''frame_8'', frame_entry (now1 3) 8 1),
                          (''frame_9'', frame_entry (now1 4) 9 0)]
                \<and> audio_writes eng' = [(4096, 4608), (4608, 5120)]
                \<and> current_audio eng' = current_audio eng
                \<and> dependency_graph eng' = chain_graph 10))"
    by blast
next
  assume "known_policy (engine_cache e)"
  then show "\<exists>r. apply_edit now e ed = Some r" by (rule apply_edit_total)
next
  fix m e' lg
  assume a: "apply_edit now e ed = Some (Inr m, e', lg)"
  from apply_edit_log[OF a] show s: "map fst lg = sort (affected_frames e ed)" by auto
  have d: "distinct (affected_frames e ed)"
    unfolding affected_frames_def get_affected_nodes_def bfs_run_def
    by (rule bfs_distinct_affected) simp
  then show "distinct (map fst lg)" using s by simp
  show "set (map fst lg) = (dependents_rel (dependency_graph e))\<^sup>* `` set (changed_frames e ed)"
    using s by (simp add: affected_frames_def get_affected_nodes_set)
  have "length (map fst lg) = length (affected_frames e ed)" using s by simp
  then show "frames_recomputed m = int (length lg)"
    using apply_edit_metrics[OF a] by simp
  let ?e1 = "e\<lparr>engine_cache := invalidate (engine_cache e) (affected_frames e ed)\<rparr>"
  from apply_edit_success[OF a] obtain k where
    rc: "recompute now 1 ?e1 [] (sort (affected_frames e ed)) = Some (Inr k, e', lg)"
    by blast
  from recompute_writes[OF rc]
  show "audio_writes e' = audio_writes e @ map (frame_slice (frame_size e)) (sort (affected_frames e ed))"
    by simp
  show "cache_data (engine_cache e') key =
                 (if key \<in> set (affected_frames e ed)
                  then Some (Tensor 1 (nat (frame_size e)),
                             get_dependencies (dependency_graph e) key, 4 * frame_size e)
                  else cache_data (engine_cache e) key)" if fits: "edit_fits e ed" for key
  proof -
    have f: "current_size_bytes (engine_cache ?e1)
               + int (length (sort (affected_frames e ed))) * (4 * frame_size ?e1)
             \<le> max_size_bytes (engine_cache ?e1)"
      using fits by (simp add: edit_fits_def max_size_invalidate)
    from recompute_data[OF rc f, of key] show ?thesis
      by (simp add: cache_data_invalidate)
  qed
qed

theorem apply_edit_recompute_set_witness:
  "frame_index (fst (affected_region (edit_at 4096 4096))) 512 = Inr 8
   \<and> frame_index (snd (affected_region (edit_at 4096 4096))) 512 = Inr 8
   \<and> known_policy (engine_cache (SparseInferenceEngine_init 1000 512))
   \<and> (\<exists>r. apply_edit tick (SparseInferenceEngine_init 1000 512) (edit_at 4096 4096) = Some r)
   \<and> (\<exists>audio eng m eng'.
         generate_full tick (SparseInferenceEngine_init 1000 512) ''amapiano'' 10 512
           = Some (Inr audio, eng)
         \<and> apply_edit tick eng (edit_at 4096 4096)
           = Some (Inr m, eng', [(''frame_8'', True), (''frame_9'', True)])
         \<and> recompute_ratio m = 2 / 10
         \<and> [''frame_8'', ''frame_9''] = sort (affected_frames eng (edit_at 4096 4096))
         \<and> {''frame_8'', ''frame_9''}
             = (dependents_rel (chain_graph 10))\<^sup>* `` set (changed_frames eng (edit_at 4096 4096))
         \<and> audio_writes eng' = [(4096, 4608), (4608, 5120)]
         \<and> edit_fits eng (edit_at 4096 4096)
         \<and> cache_data (engine_cache eng') ''frame_8''
             = Some (Tensor 1 512, get_dependencies (chain_graph 10) ''frame_8'', 2048)
         \<and> cache_data (engine_cache eng') ''frame_3'' = cache_data (engine_cache eng) ''frame_3'')"
proof -
  have i8: "frame_index 4096 512 = Inr 8" by code_simp
  have r: "frame_index (fst (affected_region (edit_at 4096 4096))) 512 = Inr 8"
    "frame_index (snd (affected_region (edit_at 4096 4096))) 512 = Inr 8"
    by (simp_all add: edit_at_def i8)
  have k: "known_policy (engine_cache (SparseInferenceEngine_init 1000 512))"
    by (simp add: known_policy_def SparseInferenceEngine_init_def TemporalCache_init_def)
  let ?G = "generate_full tick (SparseInferenceEngine_init 1000 512) ''amapiano'' 10 512"
  note sc = scenario_10_frames[where na = tick and nb = tick and prompt = "''amapiano''"]
  from sc obtain r0 eng where G0: "?G = Some (r0, eng)" by (cases ?G) auto
  from sc G0 obtain audio where "r0 = Inr audio" by (cases r0) auto
  with G0 have G: "?G = Some (Inr audio, eng)" by simp
  from sc G have fits: "edit_fits eng (edit_at 4096 4096)" and fs: "frame_size eng = 512"
    and dg: "dependency_graph eng = chain_graph 10" by simp_all
  note t = apply_edit_recompute_set[where ?now0.0 = tick and ?now1.0 = tick and prompt = "''amapiano''"
               and now = tick and ed = "edit_at 4096 4096"]
  from t[of "SparseInferenceEngine_init 1000 512"] k
  have 1: "\<exists>r. apply_edit tick (SparseInferenceEngine_init 1000 512) (edit_at 4096 4096) = Some r"
    by blast
  from t[of "SparseInferenceEngine_init 1000 512"] r G obtain m eng' where
    a: "apply_edit tick eng (edit_at 4096 4096)
              = Some (Inr m, eng', [(''frame_8'', True), (''frame_9'', True)])"
       "recompute_ratio m = 2 / 10" "audio_writes eng' = [(4096, 4608), (4608, 5120)]"
    by auto
  from t[of eng] a(1) dg
  have s: "[''frame_8'', ''frame_9''] = sort (affected_frames eng (edit_at 4096 4096))"
    "{''frame_8'', ''frame_9''}
       = (dependents_rel (chain_graph 10))\<^sup>* `` set (changed_frames eng (edit_at 4096 4096))"
    by auto
  have "set (sort (affected_frames eng (edit_at 4096 4096))) = {''frame_8'', ''frame_9''}"
    unfolding s(1)[symmetric] by simp
  then have aff: "set (affected_frames eng (edit_at 4096 4096)) = {''frame_8'', ''frame_9''}"
    by simp
  from t[of eng] a(1) fits
  have cd: "cache_data (engine_cache eng') key =
                 (if key \<in> set (affected_frames eng (edit_at 4096 4096))
                  then Some (Tensor 1 (nat (frame_size eng)),
                             get_dependencies (dependency_graph eng) key, 4 * frame_size eng)
                  else cache_data (engine_cache eng) key)" for key
    by blast
  have c8: "cache_data (engine_cache eng') ''frame_8''
             = Some (Tensor 1 512, get_dependencies (chain_graph 10) ''frame_8'', 2048)"
    using cd[of "''frame_8''"] by (simp add: aff fs dg)
  have c3: "cache_data (engine_cache eng') ''frame_3'' = cache_data (engine_cache eng) ''frame_3''"
    using cd[of "''frame_3''"] by (simp add: aff)
  from r k 1 G a s fits c8 c3 show ?thesis by blast
qed

lemma get_affected_nodes_no_dependents:
  "\<forall>c \<in> set changed. get_dependents g c = [] \<Longrightarrow> get_affected_nodes g changed = remdups changed"
  by (simp add: get_affected_nodes_def bfs_run_def bfs_no_dependents)

lemma invalidate_empty: "cache c = [] \<Longrightarrow> invalidate c keys = c"
  by (induction keys) auto

lemma changed_frames_distinct: "distinct (changed_frames eng edit)"
  by (simp add: changed_frames_def frames_between_def split: sum.splits prod.splits)

lemma changed_frames_member:
  "f \<in> set (changed_frames eng edit) \<Longrightarrow> \<exists>i. f = frame_id_of i"
  by (auto simp: changed_frames_def frames_between_def split: sum.splits prod.splits)

lemma fresh_affected:
  "affected_frames (SparseInferenceEngine_init mb fs) edit
     = changed_frames (SparseInferenceEngine_init mb fs) edit"
proof -
  have "get_affected_nodes DependencyGraph_init xs = remdups xs" for xs
    by (rule get_affected_nodes_no_dependents)
       (simp add: get_dependents_def adj_get_def DependencyGraph_init_def)
  then show ?thesis
    using changed_frames_distinct[of "SparseInferenceEngine_init mb fs" edit]
    by (simp add: affected_frames_def SparseInferenceEngine_init_def)
qed

lemma put_fresh:
  "put (TemporalCache_init mb pol) key (Tensor 1 n) deps t =
     Some (Inr (),
       if 4 * int n \<le> py_int (mb * 1024 * 1024)
       then (TemporalCache_init mb pol)
              \<lparr>cache := [(key, \<lparr>timestamp = t, activations = Tensor 1 n, dependencies = deps,
                                 hit_count = 0, size_bytes = 4 * int n\<rparr>)],
               current_size_bytes := 4 * int n\<rparr>
       else TemporalCache_init mb pol)"
proof (cases "4 * int n \<le> py_int (mb * 1024 * 1024)")
  case True
  then show ?thesis
    using put_fits[of "TemporalCache_init mb pol" "Tensor 1 n" key deps t]
    by (simp add: TemporalCache_init_def element_size_def nelement_def)
next
  case False
  then show ?thesis
    by (subst put_def, subst evict_loop.simps)
       (simp add: TemporalCache_init_def element_size_def nelement_def Let_def)
qed


lemma frame_index_error:
  "frame_index a b = Inl e \<Longrightarrow> e = ZeroDivisionError \<or> e = OverflowError"
  by (auto simp: frame_index_def Let_def split: if_splits)

lemma frame_index_zero: "frame_index a 0 = Inl ZeroDivisionError"
  by (simp add: frame_index_def)

lemma frame_range_error:
  "frame_range eng edit = Inl e \<Longrightarrow> e = ZeroDivisionError \<or> e = OverflowError"
  by (auto simp: frame_range_def split: sum.splits dest: frame_index_error)

lemma frame_range_zero: "frame_size eng = 0 \<Longrightarrow> frame_range eng edit = Inl ZeroDivisionError"
  by (simp add: frame_range_def frame_index_zero)

text \<open>
  C4. \<open>apply_edit\<close> on an engine on which \<open>generate_full\<close> has never run always fails, but
  with no dedicated "uninitialized state" error and not always without a mutation. When
  the frame range cannot be computed the call raises that error with nothing changed: a
  ZeroDivisionError (\<open>frame_size = 0\<close>) or the OverflowError of a quotient too large for a
  float. Otherwise the error is a ZeroDivisionError (an empty frame range, from the
  division by \<open>current_length_frames = 0\<close>), a RuntimeError (negative \<open>frame_size\<close>) or the
  TypeError of writing into the absent audio buffer. The dependency graph, the audio
  buffer, the frame count and the cache's counters are as before the call; the cache is
  either as before, or holds one new entry, for the first affected frame in sorted order,
  stored by \<open>cache.put\<close> before the write into the buffer failed. The latter happens
  whenever \<open>frame_size > 0\<close>, the frame fits the cache and the frame range is non-empty.
\<close>

theorem apply_edit_before_generate_full:
  "\<exists>e eng' lg.
     apply_edit now (SparseInferenceEngine_init mb fs) edit = Some (Inl e, eng', lg)
     \<and> (e = ZeroDivisionError \<or> e = OverflowError \<or> e = RuntimeError \<or> e = TypeError)
     \<and> (case frame_range (SparseInferenceEngine_init mb fs) edit of
          Inl err \<Rightarrow> e = err \<and> eng' = SparseInferenceEngine_init mb fs \<and> lg = []
        | Inr rng \<Rightarrow> e \<noteq> OverflowError)
     \<and> eng' = (SparseInferenceEngine_init mb fs)\<lparr>engine_cache := engine_cache eng'\<rparr>
     \<and> (engine_cache eng' = engine_cache (SparseInferenceEngine_init mb fs)
        \<or> (\<exists>f rest. sort (changed_frames (SparseInferenceEngine_init mb fs) edit) = f # rest
              \<and> lg = [(f, True)] \<and> e = TypeError
              \<and> engine_cache eng' =
                  (engine_cache (SparseInferenceEngine_init mb fs))
                    \<lparr>cache := [(f, \<lparr>timestamp = now 1, activations = Tensor 1 (nat fs),
                                    dependencies = [], hit_count = 0, size_bytes = 4 * fs\<rparr>)],
                     current_size_bytes := 4 * fs\<rparr>))
     \<and> (0 < fs \<and> 4 * fs \<le> py_int (mb * 1024 * 1024)
          \<and> changed_frames (SparseInferenceEngine_init mb fs) edit \<noteq> [] \<longrightarrow>
          e = TypeError \<and> cache (engine_cache eng') \<noteq> [])"
proof -
  let ?e0 = "SparseInferenceEngine_init mb fs"
  let ?c0 = "TemporalCache_init mb ''lru''"
  have e0: "frame_size ?e0 = fs" "dependency_graph ?e0 = DependencyGraph_init" "engine_cache ?e0 = ?c0"
    "current_audio ?e0 = None" "current_length_frames ?e0 = 0"
    by (simp_all add: SparseInferenceEngine_init_def)
  have inv: "invalidate ?c0 keys = ?c0" for keys
    by (rule invalidate_empty) (simp add: TemporalCache_init_def)
  have same: "?e0\<lparr>engine_cache := ?c0\<rparr> = ?e0" by (simp add: SparseInferenceEngine_init_def)
  show ?thesis
  proof (cases "frame_range ?e0 edit")
    case (Inl err)
    have "apply_edit now ?e0 edit = Some (Inl err, ?e0, [])"
      by (rule apply_edit_range_error[OF Inl])
    moreover have "changed_frames ?e0 edit = []" using Inl by (simp add: changed_frames_def)
    moreover note frame_range_error[OF Inl]
    ultimately show ?thesis using Inl by (auto simp: same e0)
  next
    case rg: (Inr rng)
    have fs: "fs \<noteq> 0" using rg frame_range_zero[of ?e0 edit] by (auto simp: e0)
    let ?xs = "sort (changed_frames ?e0 edit)"
    have arg: "?e0\<lparr>engine_cache := invalidate (engine_cache ?e0) keys\<rparr> = ?e0" for keys
      by (simp add: e0 inv same)
    note ae = apply_edit_of_recompute[OF rg, of now, unfolded fresh_affected arg]
    show ?thesis
    proof (cases ?xs)
      case Nil
      then have "changed_frames ?e0 edit = []"
        by (metis sort_key_simps(1) length_sort length_0_conv)
      moreover have "apply_edit now ?e0 edit = Some (Inl ZeroDivisionError, ?e0, [])"
        using Nil by (intro ae(2)[of "Inr 1" _ _ 1]) (simp_all add: e0)
      ultimately show ?thesis using rg by (simp add: same e0)
    next
      case (Cons f rest)
      then have "f \<in> set ?xs" by simp
      then have mem: "f \<in> set (changed_frames ?e0 edit)" by simp
      then obtain i where f: "f = frame_id_of i" using changed_frames_member by blast
      have parse: "parse_frame_idx f = Inr i" by (simp add: f parse_frame_idx_frame_id_of)
      have deps: "get_dependencies (dependency_graph ?e0) f = []"
        by (simp add: e0 get_dependencies_def adj_get_def DependencyGraph_init_def)
      show ?thesis
      proof (cases "fs < 0")
        case True
        have ad: "all_deps_cached now 1 (engine_cache ?e0) [] = (True, ?c0, 1)"
          by (simp add: e0)
        have rn: "torch_randn 1 (frame_size ?e0) = Inl RuntimeError"
          using True by (simp add: torch_randn_def e0)
        have "recompute now 1 ?e0 [] (f # rest) = Some (Inl RuntimeError, ?e0\<lparr>engine_cache := ?c0\<rparr>, [(f, True)])"
          by (subst recompute.simps) (simp only: parse ad rn deps Let_def sum.case prod.case option.case append_Nil)
        then have "recompute now 1 ?e0 [] ?xs = Some (Inl RuntimeError, ?e0, [(f, True)])"
          using Cons by (simp add: same)
        then have "apply_edit now ?e0 edit = Some (Inl RuntimeError, ?e0, [(f, True)])"
          by (intro ae(1)) simp_all
        then show ?thesis using True rg by (simp add: same e0)
      next
        case False
        with fs have pos: "0 < fs" by simp
        let ?c2 = "if 4 * int (nat fs) \<le> py_int (mb * 1024 * 1024)
                   then ?c0\<lparr>cache := [(f, \<lparr>timestamp = now 1, activations = Tensor 1 (nat fs),
                                 dependencies = [], hit_count = 0, size_bytes = 4 * int (nat fs)\<rparr>)],
                               current_size_bytes := 4 * int (nat fs)\<rparr>
                   else ?c0"
        have ad: "all_deps_cached now 1 (engine_cache ?e0) [] = (True, ?c0, 1)"
          by (simp add: e0)
        have rn: "torch_randn 1 (frame_size ?e0) = Inr (Tensor 1 (nat fs))"
          using pos by (simp add: torch_randn_def e0 del: One_nat_def)
        have pt: "put ?c0 f (Tensor 1 (nat fs)) [] (now 1) = Some (Inr (), ?c2)"
          by (rule put_fresh)
        have sa: "slice_assign (current_audio ?e0) x y t = Inl TypeError" for x y t
          by (simp add: slice_assign_def e0)
        have "recompute now 1 ?e0 [] (f # rest) = Some (Inl TypeError, ?e0\<lparr>engine_cache := ?c2\<rparr>, [(f, True)])"
          by (subst recompute.simps) (simp only: parse ad rn pt sa deps Let_def sum.case prod.case option.case append_Nil)
        then have "recompute now 1 ?e0 [] ?xs = Some (Inl TypeError, ?e0\<lparr>engine_cache := ?c2\<rparr>, [(f, True)])"
          using Cons by simp
        then have a: "apply_edit now ?e0 edit = Some (Inl TypeError, ?e0\<lparr>engine_cache := ?c2\<rparr>, [(f, True)])"
          by (intro ae(1)) simp_all
        show ?thesis
        proof (cases "4 * fs \<le> py_int (mb * 1024 * 1024)")
          case True
          then show ?thesis using a pos Cons rg
            by (simp add: e0 SparseInferenceEngine_init_def)
        next
          case False
          then show ?thesis using a pos rg
            by (simp add: e0 SparseInferenceEngine_init_def)
        qed
      qed
    qed
  qed
qed


theorem apply_edit_before_generate_full_witness:
  "(0::int) < 512 \<and> 4 * 512 \<le> py_int (1000 * 1024 * 1024)
   \<and> changed_frames (SparseInferenceEngine_init 1000 512) (edit_at 0 0) \<noteq> []
   \<and> (\<exists>eng' lg. apply_edit tick (SparseInferenceEngine_init 1000 512) (edit_at 0 0)
                     = Some (Inl TypeError, eng', lg)
           \<and> cache (engine_cache eng') \<noteq> [])"
proof -
  have h: "(0::int) < 512" "4 * 512 \<le> py_int (1000 * 1024 * 1024)"
    "changed_frames (SparseInferenceEngine_init 1000 512) (edit_at 0 0) \<noteq> []"
    by code_simp+
  from apply_edit_before_generate_full[of tick 1000 512 "edit_at 0 0"] h
  have "\<exists>eng' lg. apply_edit tick (SparseInferenceEngine_init 1000 512) (edit_at 0 0)
                     = Some (Inl TypeError, eng', lg)
           \<and> cache (engine_cache eng') \<noteq> []"
    by blast
  with h show ?thesis by blast
qed

text \<open>
  C4, as stated, fails on a new engine with the default sizes: the call raises a TypeError
  after \<open>frame_0\<close> has been stored in the cache, which was empty before.
\<close>

theorem apply_edit_before_generate_full_mutates:
  "apply_edit tick (SparseInferenceEngine_init 1000 512) (edit_at 0 0)
     = Some (Inl TypeError,
             (SparseInferenceEngine_init 1000 512)
               \<lparr>engine_cache := (TemporalCache_init 1000 ''lru'')
                  \<lparr>cache := [(''frame_0'', \<lparr>timestamp = 1, activations = Tensor 1 512,
                                           dependencies = [], hit_count = 0, size_bytes = 2048\<rparr>)],
                   current_size_bytes := 2048\<rparr>\<rparr>,
             [(''frame_0'', True)])
   \<and> engine_cache (SparseInferenceEngine_init 1000 512) = TemporalCache_init 1000 ''lru''
   \<and> cache (TemporalCache_init 1000 ''lru'') = []
   \<and> current_size_bytes (TemporalCache_init 1000 ''lru'') = 0"
  by code_simp








text \<open>
  Two further executions. With a cache of 3 bytes no frame of one sample (4 bytes) is ever
  stored: the edit recomputes \<open>frame_3\<close>, beyond the 3 frames of the buffer, and returns its
  metrics with the cache still empty. And a region start of \<open>2^1024\<close> samples makes the
  division overflow, on a new engine, with nothing changed.
\<close>

lemma apply_edit_small_cache_not_stored:
  "(case generate_full tick (SparseInferenceEngine_init (3 / (1024 * 1024)) 1) ''p'' 3 1 of
      Some (Inr audio, eng) \<Rightarrow>
        current_length_frames eng = 3 \<and> max_size_bytes (engine_cache eng) = 3
        \<and> frame_range eng (edit_at 3 3) = Inr (3, 3)
        \<and> \<not> edit_fits eng (edit_at 3 3)
        \<and> (case apply_edit tick eng (edit_at 3 3) of
             Some (Inr m, eng', lg) \<Rightarrow>
               lg = [(''frame_3'', True)] \<and> frames_recomputed m = 1
               \<and> audio_writes eng' = [(3, 4)]
               \<and> cache (engine_cache eng') = []
           | _ \<Rightarrow> False)
    | _ \<Rightarrow> False)"
  by code_simp

lemma apply_edit_overflow:
  "apply_edit tick (SparseInferenceEngine_init 1000 1) (edit_at (2 ^ 1024) 0)
     = Some (Inl OverflowError, SparseInferenceEngine_init 1000 1, [])"
  by code_simp

lemma scenario_11_frames:
  "(case generate_full na (SparseInferenceEngine_init 1000 512) prompt 11 512 of
      Some (Inr audio, eng) \<Rightarrow>
        current_length_frames eng = 11
        \<and> (case apply_edit nb eng (edit_at 1024 1024) of
             Some (Inr m, eng', lg) \<Rightarrow>
               lg = [(''frame_10'', False), (''frame_2'', True), (''frame_3'', True),
                     (''frame_4'', True), (''frame_5'', True), (''frame_6'', True),
                     (''frame_7'', True), (''frame_8'', True), (''frame_9'', True)]
           | _ \<Rightarrow> False)
    | _ \<Rightarrow> False)"
  by code_simp

text \<open>
  C3. The recompute loop runs over \<open>sorted(affected_frames)\<close>, which orders the frame ids
  as strings. After \<open>generate_full\<close> has produced 11 frames, an edit whose region maps to
  frame 2 recomputes \<open>frame_10\<close> first, before \<open>frame_2\<close>, ..., \<open>frame_9\<close>, and from scratch,
  since its dependency \<open>frame_9\<close> has been invalidated and is not yet recomputed; this holds
  for every clock.
\<close>

theorem recompute_order_lexicographic:
  "\<exists>audio eng m eng'.
      generate_full now0 (SparseInferenceEngine_init 1000 512) prompt 11 512 = Some (Inr audio, eng)
      \<and> current_length_frames eng = 11
      \<and> apply_edit now1 eng (edit_at 1024 1024)
           = Some (Inr m, eng',
                   [(''frame_10'', False), (''frame_2'', True), (''frame_3'', True),
                    (''frame_4'', True), (''frame_5'', True), (''frame_6'', True),
                    (''frame_7'', True), (''frame_8'', True), (''frame_9'', True)])"
proof -
  let ?G = "generate_full now0 (SparseInferenceEngine_init 1000 512) prompt 11 512"
  note sc = scenario_11_frames[where na = now0 and nb = now1 and prompt = prompt]
  from sc obtain r eng where G0: "?G = Some (r, eng)" by (cases ?G) auto
  from sc G0 obtain audio where "r = Inr audio" by (cases r) auto
  with G0 have G: "?G = Some (Inr audio, eng)" by simp
  let ?A = "apply_edit now1 eng (edit_at 1024 1024)"
  from sc G obtain ra eng' lg where A0: "?A = Some (ra, eng', lg)" by (cases ?A) auto
  from sc G A0 obtain m where "ra = Inr m" by (cases ra) auto
  with sc G A0 show ?thesis by simp
qed

end
